theory Spec2Isabelle
  imports Main "HOL-Library.Sublist"
begin

section \<open>Go strings\<close>

text \<open>
  A Go string is a byte sequence that the standard library reads as UTF-8. The functions
  the bot applies to strings (\<^verbatim>\<open>strings.ToUpper\<close>, \<^verbatim>\<open>strings.ToLower\<close>,
  \<^verbatim>\<open>strings.TrimSpace\<close>, \<^verbatim>\<open>strings.Contains\<close> on lower-cased text and the
  \<^verbatim>\<open>regexp\<close> matcher) all work code point by code point, so a string is modelled by the
  list of code points that \<^verbatim>\<open>for _, r := range s\<close> yields. ASCII literals are written
  with \<open>runes\<close>.
\<close>

type_synonym rune = nat
type_synonym gostring = "rune list"

definition runes :: "string \<Rightarrow> gostring" where
  "runes s = map of_char s"

text \<open>
  \<^verbatim>\<open>unicode.ToUpper\<close> and \<^verbatim>\<open>unicode.ToLower\<close> of the Go library: the ASCII range is
  handled by the two comparisons below, every other code point is looked up in the
  library's case table (\<^verbatim>\<open>unicode.CaseRanges\<close>). The table is data of the Go
  distribution, not of this repository, and is a parameter here: \<open>upperCase\<close> stands for
  \<^verbatim>\<open>To(UpperCase, r)\<close> and \<open>lowerCase\<close> for \<^verbatim>\<open>To(LowerCase, r)\<close>.
\<close>

definition unicode_ToUpper :: "(rune \<Rightarrow> rune) \<Rightarrow> rune \<Rightarrow> rune" where
  "unicode_ToUpper upperCase r =
     (if r \<le> 127 then (if 97 \<le> r \<and> r \<le> 122 then r - 32 else r) else upperCase r)"

definition unicode_ToLower :: "(rune \<Rightarrow> rune) \<Rightarrow> rune \<Rightarrow> rune" where
  "unicode_ToLower lowerCase r =
     (if r \<le> 127 then (if 65 \<le> r \<and> r \<le> 90 then r + 32 else r) else lowerCase r)"

definition strings_ToUpper :: "(rune \<Rightarrow> rune) \<Rightarrow> gostring \<Rightarrow> gostring" where
  "strings_ToUpper upperCase s = map (unicode_ToUpper upperCase) s"

definition strings_ToLower :: "(rune \<Rightarrow> rune) \<Rightarrow> gostring \<Rightarrow> gostring" where
  "strings_ToLower lowerCase s = map (unicode_ToLower lowerCase) s"

text \<open>
  The property of the upper-case table that the claims about normalisation rest on: the
  upper-case form of a code point outside ASCII is itself left alone by
  \<^verbatim>\<open>unicode.ToUpper\<close>.
\<close>

definition upper_table_closed :: "(rune \<Rightarrow> rune) \<Rightarrow> bool" where
  "upper_table_closed upperCase =
     (\<forall>r. 127 < r \<longrightarrow> unicode_ToUpper upperCase (upperCase r) = upperCase r)"

text \<open>
  A fragment of the table, for concrete evaluation: U+017F (long s) has upper case
  \<open>S\<close>, U+00E9 has upper case U+00C9, and the other code points of the fragment are
  their own upper case.
\<close>

definition upperCase_fragment :: "rune \<Rightarrow> rune" where
  "upperCase_fragment r = (if r = 383 then 83 else if r = 233 then 201 else r)"

definition lowerCase_fragment :: "rune \<Rightarrow> rune" where
  "lowerCase_fragment r = (if r = 8490 then 107 else if r = 201 then 233 else r)"

text \<open>\<^verbatim>\<open>strings.Contains(s, substr)\<close>: \<open>substr\<close> occurs in \<open>s\<close> at some offset.\<close>

fun strings_Contains :: "gostring \<Rightarrow> gostring \<Rightarrow> bool" where
  "strings_Contains [] substr = (substr = [])"
| "strings_Contains (c # cs) substr = (prefix substr (c # cs) \<or> strings_Contains cs substr)"

text \<open>
  \<^verbatim>\<open>unicode.IsSpace\<close>: in Latin-1 the six ASCII blanks, U+0085 and U+00A0; beyond it
  the code points with the White_Space property.
\<close>

definition unicode_IsSpace :: "rune \<Rightarrow> bool" where
  "unicode_IsSpace r =
     (if r \<le> 255 then r \<in> {9, 10, 11, 12, 13, 32, 133, 160}
      else r = 5760 \<or> (8192 \<le> r \<and> r \<le> 8202) \<or> r \<in> {8232, 8233, 8239, 8287, 12288})"

definition strings_TrimSpace :: "gostring \<Rightarrow> gostring" where
  "strings_TrimSpace s = rev (dropWhile unicode_IsSpace (rev (dropWhile unicode_IsSpace s)))"

section \<open>Video codes (internal/crawler)\<close>

text \<open>
  \<^verbatim>\<open>func NormalizeCode(code string) string\<close>: the empty string is returned as it is,
  any other string is upper-cased.
\<close>

definition NormalizeCode :: "(rune \<Rightarrow> rune) \<Rightarrow> gostring \<Rightarrow> gostring" where
  "NormalizeCode upperCase code = (if code = [] then [] else strings_ToUpper upperCase code)"

text \<open>
  The pattern of a video code, \<^verbatim>\<open>codePattern = regexp.MustCompile(`(?i)([A-Z]+-\d+)`)\<close>.
  Go's \<^verbatim>\<open>regexp\<close> package compiles a character class under the flag \<^verbatim>\<open>(?i)\<close> by
  adding to it every code point that simple case folding relates to a member
  (\<^verbatim>\<open>regexp/syntax\<close>, \<^verbatim>\<open>appendFoldedRange\<close>, which walks \<^verbatim>\<open>unicode.SimpleFold\<close>).
  The fold orbit of \<open>K\<close> is \<open>K, k, U+212A\<close> (Kelvin sign) and that of \<open>S\<close> is
  \<open>S, s, U+017F\<close> (long s); every other letter of \<open>A-Z\<close> folds only to its lower-case
  letter. So \<^verbatim>\<open>(?i)[A-Z]\<close> is the class \<open>A-Z a-z U+017F U+212A\<close>. The class \<^verbatim>\<open>\d\<close>
  is \<open>0-9\<close> and has no case.
\<close>

definition codePattern_letter :: "rune \<Rightarrow> bool" where
  "codePattern_letter r =
     ((65 \<le> r \<and> r \<le> 90) \<or> (97 \<le> r \<and> r \<le> 122) \<or> r = 383 \<or> r = 8490)"

definition codePattern_digit :: "rune \<Rightarrow> bool" where
  "codePattern_digit r = (48 \<le> r \<and> r \<le> 57)"

text \<open>
  A match of the pattern that starts at the head of \<open>s\<close>. Both repetitions are greedy. The
  letters are followed by \<open>-\<close> (code point 45), which is no letter, so only the longest
  run of letters can be followed by it and giving letters back never helps; nothing
  follows the digits, so the longest run of digits is the match.
\<close>

definition codePattern_match_here :: "gostring \<Rightarrow> gostring option" where
  "codePattern_match_here s =
     (let letters = takeWhile codePattern_letter s;
          rest = dropWhile codePattern_letter s
      in if letters = [] then None
         else case rest of
                [] \<Rightarrow> None
              | c # rest' \<Rightarrow>
                  (if c \<noteq> 45 then None
                   else let digits = takeWhile codePattern_digit rest'
                        in if digits = [] then None else Some (letters @ [45] @ digits)))"

text \<open>
  \<^verbatim>\<open>codePattern.FindStringSubmatch(text)\<close>: the match at the leftmost offset where one
  starts. The only group is the whole pattern, so \<^verbatim>\<open>matches[1]\<close> is the match.
\<close>

fun codePattern_FindString :: "gostring \<Rightarrow> gostring option" where
  "codePattern_FindString [] = None"
| "codePattern_FindString (c # cs) =
     (case codePattern_match_here (c # cs) of
        Some m \<Rightarrow> Some m
      | None \<Rightarrow> codePattern_FindString cs)"

definition ExtractCode :: "(rune \<Rightarrow> rune) \<Rightarrow> gostring \<Rightarrow> gostring" where
  "ExtractCode upperCase text =
     (if text = [] then []
      else case codePattern_FindString text of
             Some m \<Rightarrow> NormalizeCode upperCase m
           | None \<Rightarrow> [])"

text \<open>
  The specification's pattern \<^verbatim>\<open>[A-Za-z]+-[0-9]+\<close>, in the specification's words: a
  non-empty run of ASCII letters, a hyphen, a non-empty run of ASCII digits; and a text
  that contains a substring of that shape.
\<close>

definition ascii_letter :: "rune \<Rightarrow> bool" where
  "ascii_letter r = ((65 \<le> r \<and> r \<le> 90) \<or> (97 \<le> r \<and> r \<le> 122))"

definition spec_code_shape :: "gostring \<Rightarrow> bool" where
  "spec_code_shape m =
     (\<exists>ls ds. m = ls @ 45 # ds \<and> ls \<noteq> [] \<and> ds \<noteq> []
        \<and> list_all ascii_letter ls \<and> list_all codePattern_digit ds)"

definition spec_has_code :: "gostring \<Rightarrow> bool" where
  "spec_has_code x = (\<exists>pre m post. x = pre @ m @ post \<and> spec_code_shape m)"

section \<open>Data model (internal/model)\<close>

text \<open>
  The three entities. \<^verbatim>\<open>time.Time\<close> is a point on a discrete clock, \<^verbatim>\<open>uint\<close> keys are
  natural numbers and the \<^verbatim>\<open>int64\<close> chat id is an integer (no arithmetic is done on
  either). \<^verbatim>\<open>SubscriptionType\<close> and \<^verbatim>\<open>PushStatus\<close> are string types with named
  constants, and stay strings: a row may hold any value.
\<close>

record Video =
  ID :: nat
  Code :: gostring
  Title :: gostring
  Actresses :: gostring
  Tags :: gostring
  Duration :: int
  ReleaseDate :: "nat option"
  CoverURL :: gostring
  PreviewURL :: gostring
  DetailURL :: gostring
  Pushed :: bool
  CreatedAt :: nat
  UpdatedAt :: nat

definition SubTypeAll :: gostring where
  "SubTypeAll = runes ''ALL''"

definition SubTypeActress :: gostring where
  "SubTypeActress = runes ''ACTRESS''"

definition SubTypeTag :: gostring where
  "SubTypeTag = runes ''TAG''"

record Subscription =
  SubID :: nat
  ChatID :: int
  ChatType :: gostring
  Type :: gostring
  Keyword :: gostring
  Enabled :: bool
  SubCreatedAt :: nat
  SubUpdatedAt :: nat

definition PushStatusSuccess :: gostring where
  "PushStatusSuccess = runes ''SUCCESS''"

definition PushStatusFailed :: gostring where
  "PushStatusFailed = runes ''FAILED''"

record PushRecord =
  RecID :: nat
  VideoID :: nat
  RecChatID :: int
  Status :: gostring
  FailReason :: gostring
  MessageID :: int
  PushedAt :: nat
  RecCreatedAt :: nat

section \<open>Subscription matching (internal/push) and the subscribe argument (internal/bot)\<close>

text \<open>
  \<^verbatim>\<open>func MatchesSubscription(video *model.Video, sub *model.Subscription) bool\<close>. The
  two pointers may be nil, so both arguments are options.
\<close>

definition MatchesSubscription ::
  "(rune \<Rightarrow> rune) \<Rightarrow> Video option \<Rightarrow> Subscription option \<Rightarrow> bool" where
  "MatchesSubscription lowerCase video sub =
     (case video of
        None \<Rightarrow> False
      | Some v \<Rightarrow>
         (case sub of
            None \<Rightarrow> False
          | Some s \<Rightarrow>
             (if Type s = SubTypeAll then True
              else if Type s = SubTypeActress then
                strings_Contains (strings_ToLower lowerCase (Actresses v))
                                 (strings_ToLower lowerCase (Keyword s))
              else if Type s = SubTypeTag then
                strings_Contains (strings_ToLower lowerCase (Tags v))
                                 (strings_ToLower lowerCase (Keyword s))
              else False)))"




definition strings_HasPrefix :: "gostring \<Rightarrow> gostring \<Rightarrow> bool" where
  "strings_HasPrefix s p = prefix p s"

definition strings_TrimPrefix :: "gostring \<Rightarrow> gostring \<Rightarrow> gostring" where
  "strings_TrimPrefix s p = (if strings_HasPrefix s p then drop (length p) s else s)"

text \<open>
  \<^verbatim>\<open>func DetermineSubscriptionType(args string) (model.SubscriptionType, string)\<close>.
\<close>

definition DetermineSubscriptionType :: "gostring \<Rightarrow> gostring \<times> gostring" where
  "DetermineSubscriptionType args0 =
     (let args = strings_TrimSpace args0
      in if args = [] then (SubTypeAll, [])
         else if strings_HasPrefix args (runes ''#'')
              then (SubTypeTag, strings_TrimPrefix args (runes ''#''))
              else (SubTypeActress, args))"

text \<open>
  The subscription that \<^verbatim>\<open>handleSubscribe\<close> builds from the argument of
  \<^verbatim>\<open>/subscribe\<close> before it hands it to the store; the fields it does not set are zero.
\<close>

definition handleSubscribe_sub :: "int \<Rightarrow> gostring \<Rightarrow> gostring \<Rightarrow> Subscription" where
  "handleSubscribe_sub chatID chatType args =
     (let (subType, keyword) = DetermineSubscriptionType args
      in \<lparr>SubID = 0, ChatID = chatID, ChatType = chatType, Type = subType,
          Keyword = keyword, Enabled = True, SubCreatedAt = 0, SubUpdatedAt = 0\<rparr>)"

text \<open>Sample rows for concrete evaluation.\<close>

definition sample_video :: Video where
  "sample_video =
     \<lparr>ID = 7, Code = runes ''SSIS-001'', Title = runes ''Sample'',
      Actresses = runes ''Yua Mikami'', Tags = runes ''Drama,HD'', Duration = 120,
      ReleaseDate = None, CoverURL = [], PreviewURL = [],
      DetailURL = runes ''https://missav.ai/ssis-001'', Pushed = False,
      CreatedAt = 10, UpdatedAt = 10\<rparr>"

definition sample_sub :: "gostring \<Rightarrow> gostring \<Rightarrow> Subscription" where
  "sample_sub subType keyword =
     \<lparr>SubID = 1, ChatID = 100, ChatType = runes ''private'', Type = subType,
      Keyword = keyword, Enabled = True, SubCreatedAt = 5, SubUpdatedAt = 5\<rparr>"



section \<open>The store (internal/store) and the push service (internal/push)\<close>

text \<open>
  \<^verbatim>\<open>MySQLStore\<close> issues its statements through GORM to a MySQL database, and the push
  service sends through the Telegram client; the database and the Telegram API are outside
  the repository. Their state is the \<open>World\<close> below: the three tables, rows in insertion
  order, and the log of the calls made on the Telegram client. Whether a statement or a
  send fails (\<^verbatim>\<open>result.Error\<close>, the error a send returns) is not decided by the bot, so
  each operation takes the outcome of the calls it makes as an argument: \<open>None\<close> for a nil
  error, \<open>Some e\<close> for the error \<open>e\<close>; the clock reading of \<^verbatim>\<open>time.Now()\<close> is part of
  the outcome as well. The message text (\<^verbatim>\<open>FormatVideoMessage\<close>) is not modelled; a
  logged call names the chat and the video it was sent for.
\<close>

type_synonym error = string

datatype tg_call = TgSendVideo int nat | TgSendPhoto int nat | TgSendMarkdown int nat

record World =
  videos :: "Video list"
  subscriptions :: "Subscription list"
  push_records :: "PushRecord list"
  telegram_log :: "tg_call list"

text \<open>The key an auto-increment column gives the next row.\<close>

definition next_id :: "nat list \<Rightarrow> nat" where
  "next_id ids = Suc (fold max ids 0)"

text \<open>
  \<^verbatim>\<open>INSERT ... ON CONFLICT (code) DO NOTHING\<close> on the table \<open>videos\<close>, whose column
  \<open>code\<close> carries a unique index: a row whose code is present is left out, any other
  row is appended with a fresh key and the creation time.
\<close>

definition insert_ignore :: "nat \<Rightarrow> Video \<Rightarrow> World \<Rightarrow> World" where
  "insert_ignore now v w =
     (if Code v \<in> set (map Code (videos w)) then w
      else w\<lparr>videos := videos w @
                [v\<lparr>ID := next_id (map ID (videos w)), CreatedAt := now, UpdatedAt := now\<rparr>]\<rparr>)"

text \<open>
  \<^verbatim>\<open>func (s *MySQLStore) SaveVideo(ctx, video) error\<close>: the flag is cleared, then the
  row is created unless its code exists.
\<close>

definition SaveVideo :: "error option \<Rightarrow> nat \<Rightarrow> World \<Rightarrow> Video \<Rightarrow> World \<times> error option" where
  "SaveVideo dbErr now w video =
     (let v = video\<lparr>Pushed := False\<rparr>
      in case dbErr of
           Some e \<Rightarrow> (w, Some (''failed to save video: '' @ e))
         | None \<Rightarrow> (insert_ignore now v w, None))"

text \<open>
  \<^verbatim>\<open>func (s *MySQLStore) SaveVideos(ctx, videos) (saved int, duplicates int, err error)\<close>.
  \<^verbatim>\<open>CreateInBatches\<close> runs its batches in one transaction, so a failure leaves the table
  as it was; \<^verbatim>\<open>RowsAffected\<close> counts the rows created.
\<close>

definition SaveVideos ::
  "error option \<Rightarrow> nat \<Rightarrow> World \<Rightarrow> Video list \<Rightarrow> World \<times> int \<times> int \<times> error option" where
  "SaveVideos dbErr now w vs =
     (if length vs = 0 then (w, 0, 0, None)
      else let vs' = map (\<lambda>v. v\<lparr>Pushed := False\<rparr>) vs
           in case dbErr of
                Some e \<Rightarrow> (w, 0, 0, Some (''failed to save videos: '' @ e))
              | None \<Rightarrow>
                  (let w' = fold (insert_ignore now) vs' w;
                       saved = int (length (videos w')) - int (length (videos w));
                       duplicates = int (length vs) - saved
                   in (w', saved, duplicates, None)))"

text \<open>
  \<^verbatim>\<open>GetUnpushedVideos\<close>: the rows with \<open>pushed = false\<close>, newest first (rows created at
  the same instant come in reverse insertion order here; SQL leaves their order open).
\<close>

definition GetUnpushedVideos :: "error option \<Rightarrow> World \<Rightarrow> error + Video list" where
  "GetUnpushedVideos dbErr w =
     (case dbErr of
        Some e \<Rightarrow> Inl (''failed to get unpushed videos: '' @ e)
      | None \<Rightarrow> Inr (rev (sort_key CreatedAt (filter (\<lambda>v. \<not> Pushed v) (videos w)))))"

text \<open>\<^verbatim>\<open>MarkAsPushed\<close>: \<^verbatim>\<open>UPDATE videos SET pushed = true WHERE id = ?\<close>.\<close>

definition MarkAsPushed :: "error option \<Rightarrow> nat \<Rightarrow> World \<Rightarrow> nat \<Rightarrow> World \<times> error option" where
  "MarkAsPushed dbErr now w videoID =
     (case dbErr of
        Some e \<Rightarrow> (w, Some (''failed to mark video as pushed: '' @ e))
      | None \<Rightarrow>
          (w\<lparr>videos := map (\<lambda>r. if ID r = videoID then r\<lparr>Pushed := True, UpdatedAt := now\<rparr> else r)
                          (videos w)\<rparr>, None))"

definition GetAllSubscriptions :: "error option \<Rightarrow> World \<Rightarrow> error + Subscription list" where
  "GetAllSubscriptions dbErr w =
     (case dbErr of
        Some e \<Rightarrow> Inl (''failed to get all subscriptions: '' @ e)
      | None \<Rightarrow> Inr (filter Enabled (subscriptions w)))"

definition containsIgnoreCase :: "(rune \<Rightarrow> rune) \<Rightarrow> gostring \<Rightarrow> gostring \<Rightarrow> bool" where
  "containsIgnoreCase lowerCase s substr =
     strings_Contains (strings_ToLower lowerCase s) (strings_ToLower lowerCase substr)"

text \<open>The store's own \<^verbatim>\<open>matchesSubscription\<close>, called on rows, never on nil.\<close>

definition matchesSubscription :: "(rune \<Rightarrow> rune) \<Rightarrow> Video \<Rightarrow> Subscription \<Rightarrow> bool" where
  "matchesSubscription lowerCase video sub =
     (if Type sub = SubTypeAll then True
      else if Type sub = SubTypeActress then
        containsIgnoreCase lowerCase (Actresses video) (Keyword sub)
      else if Type sub = SubTypeTag then
        containsIgnoreCase lowerCase (Tags video) (Keyword sub)
      else False)"

definition GetMatchingSubscriptions ::
  "error option \<Rightarrow> (rune \<Rightarrow> rune) \<Rightarrow> World \<Rightarrow> Video \<Rightarrow> error + Subscription list" where
  "GetMatchingSubscriptions dbErr lowerCase w video =
     (case GetAllSubscriptions dbErr w of
        Inl e \<Rightarrow> Inl e
      | Inr allSubs \<Rightarrow> Inr (filter (matchesSubscription lowerCase video) allSubs))"

text \<open>\<^verbatim>\<open>RecordPush\<close>: the time of the push is read again, then the row is created.\<close>

definition RecordPush :: "error option \<Rightarrow> nat \<Rightarrow> World \<Rightarrow> PushRecord \<Rightarrow> World \<times> error option" where
  "RecordPush dbErr now w record =
     (case dbErr of
        Some e \<Rightarrow> (w, Some (''failed to record push: '' @ e))
      | None \<Rightarrow>
          (w\<lparr>push_records := push_records w @
                [record\<lparr>RecID := next_id (map RecID (push_records w)), PushedAt := now,
                        RecCreatedAt := now\<rparr>]\<rparr>, None))"

text \<open>
  \<^verbatim>\<open>HasPushed\<close>: counts the rows of the pair with status SUCCESS and answers whether
  there is one.
\<close>

definition count_success :: "World \<Rightarrow> nat \<Rightarrow> int \<Rightarrow> nat" where
  "count_success w videoID chatID =
     length (filter (\<lambda>r. VideoID r = videoID \<and> RecChatID r = chatID
                          \<and> Status r = PushStatusSuccess) (push_records w))"

definition HasPushed :: "error option \<Rightarrow> World \<Rightarrow> nat \<Rightarrow> int \<Rightarrow> error + bool" where
  "HasPushed dbErr w videoID chatID =
     (case dbErr of
        Some e \<Rightarrow> Inl (''failed to check push status: '' @ e)
      | None \<Rightarrow> Inr (count_success w videoID chatID > 0))"

text \<open>
  The outcome of the collaborator calls of one \<^verbatim>\<open>PushVideoToChat\<close>: the history query,
  the wait on the rate limiter, the three kinds of send, the clock, and the insert of the
  push record.
\<close>

record chat_outcome =
  hasPushedErr :: "error option"
  limiterErr :: "error option"
  sendVideoErr :: "error option"
  sendPhotoErr :: "error option"
  sendMarkdownErr :: "error option"
  pushNow :: nat
  recordPushErr :: "error option"

definition log_call :: "tg_call \<Rightarrow> World \<Rightarrow> World" where
  "log_call c w = w\<lparr>telegram_log := telegram_log w @ [c]\<rparr>"

text \<open>\<^verbatim>\<open>func (s *Service) PushVideoToChat(ctx, video, chatID) error\<close>.\<close>

definition PushVideoToChat ::
  "chat_outcome \<Rightarrow> World \<Rightarrow> Video \<Rightarrow> int \<Rightarrow> World \<times> error option" where
  "PushVideoToChat out w video chatID =
     (case HasPushed (hasPushedErr out) w (ID video) chatID of
        Inl e \<Rightarrow> (w, Some (''failed to check push history: '' @ e))
      | Inr hasPushed \<Rightarrow>
          if hasPushed then (w, None)
          else case limiterErr out of
                 Some e \<Rightarrow> (w, Some (''rate limiter error: '' @ e))
               | None \<Rightarrow>
                  (let (w1, sendErr1) =
                         (if PreviewURL video \<noteq> []
                          then (log_call (TgSendVideo chatID (ID video)) w, sendVideoErr out)
                          else (w, None));
                       (w2, sendErr) =
                         (if sendErr1 \<noteq> None \<or> PreviewURL video = []
                          then (if CoverURL video \<noteq> []
                                then (log_call (TgSendPhoto chatID (ID video)) w1,
                                      sendPhotoErr out)
                                else (log_call (TgSendMarkdown chatID (ID video)) w1,
                                      sendMarkdownErr out))
                          else (w1, sendErr1));
                       record = \<lparr>RecID = 0, VideoID = ID video, RecChatID = chatID,
                                 Status = (case sendErr of Some e \<Rightarrow> PushStatusFailed
                                           | None \<Rightarrow> PushStatusSuccess),
                                 FailReason = (case sendErr of Some e \<Rightarrow> runes e | None \<Rightarrow> []),
                                 MessageID = 0, PushedAt = pushNow out, RecCreatedAt = 0\<rparr>
                   in (fst (RecordPush (recordPushErr out) (pushNow out) w2 record), sendErr)))"

text \<open>
  \<^verbatim>\<open>PushVideoToSubscribers\<close>. The outcome holds that of the subscription query and,
  for the subscription at each position of the result, that of its \<^verbatim>\<open>PushVideoToChat\<close>.
  The loop keeps the set \<open>pushedChats\<close>; one second of sleep after a send is not modelled.
\<close>

record subs_outcome =
  matchErr :: "error option"
  chatOut :: "nat \<Rightarrow> chat_outcome"

fun push_loop ::
  "(nat \<Rightarrow> chat_outcome) \<Rightarrow> Video \<Rightarrow> Subscription list \<Rightarrow> nat \<Rightarrow> int set \<Rightarrow> World \<Rightarrow> World" where
  "push_loop co video [] i pushedChats w = w"
| "push_loop co video (sub # subs) i pushedChats w =
     (if ChatID sub \<in> pushedChats then push_loop co video subs (Suc i) pushedChats w
      else case PushVideoToChat (co i) w video (ChatID sub) of
             (w', Some e) \<Rightarrow> push_loop co video subs (Suc i) pushedChats w'
           | (w', None) \<Rightarrow> push_loop co video subs (Suc i) (insert (ChatID sub) pushedChats) w')"

definition PushVideoToSubscribers ::
  "subs_outcome \<Rightarrow> (rune \<Rightarrow> rune) \<Rightarrow> World \<Rightarrow> Video \<Rightarrow> World \<times> error option" where
  "PushVideoToSubscribers out lowerCase w video =
     (case GetMatchingSubscriptions (matchErr out) lowerCase w video of
        Inl e \<Rightarrow> (w, Some (''failed to get matching subscriptions: '' @ e))
      | Inr subs \<Rightarrow> (push_loop (chatOut out) video subs 0 {} w, None))"

text \<open>
  \<^verbatim>\<open>PushUnpushedVideos\<close>: the sweep. The outcome holds that of the query for the
  unpushed videos and, for the video at each position, that of its fan-out and of its
  \<^verbatim>\<open>MarkAsPushed\<close>.
\<close>

record video_outcome =
  subsOut :: subs_outcome
  markErr :: "error option"
  markNow :: nat

record sweep_outcome =
  unpushedErr :: "error option"
  videoOut :: "nat \<Rightarrow> video_outcome"

fun sweep_loop ::
  "(nat \<Rightarrow> video_outcome) \<Rightarrow> (rune \<Rightarrow> rune) \<Rightarrow> Video list \<Rightarrow> nat \<Rightarrow> World \<Rightarrow> World" where
  "sweep_loop vo lowerCase [] i w = w"
| "sweep_loop vo lowerCase (video # vs) i w =
     (case PushVideoToSubscribers (subsOut (vo i)) lowerCase w video of
        (w', Some e) \<Rightarrow> sweep_loop vo lowerCase vs (Suc i) w'
      | (w', None) \<Rightarrow>
          sweep_loop vo lowerCase vs (Suc i)
            (fst (MarkAsPushed (markErr (vo i)) (markNow (vo i)) w' (ID video))))"

definition PushUnpushedVideos ::
  "sweep_outcome \<Rightarrow> (rune \<Rightarrow> rune) \<Rightarrow> World \<Rightarrow> World \<times> error option" where
  "PushUnpushedVideos out lowerCase w =
     (case GetUnpushedVideos (unpushedErr out) w of
        Inl e \<Rightarrow> (w, Some (''failed to get unpushed videos: '' @ e))
      | Inr vs \<Rightarrow> (sweep_loop (videoOut out) lowerCase vs 0 w, None))"

text \<open>\<open>N\<close> calls of \<^verbatim>\<open>PushVideoToChat\<close> for one pair, one after the other.\<close>

fun push_calls :: "chat_outcome list \<Rightarrow> World \<Rightarrow> Video \<Rightarrow> int \<Rightarrow> World" where
  "push_calls [] w video chatID = w"
| "push_calls (out # outs) w video chatID =
     push_calls outs (fst (PushVideoToChat out w video chatID)) video chatID"

text \<open>
  Outcomes in which no collaborator fails, and outcomes in which one does: the text send,
  the history query, the insert of the push record.
\<close>

definition chat_ok :: chat_outcome where
  "chat_ok = \<lparr>hasPushedErr = None, limiterErr = None, sendVideoErr = None,
              sendPhotoErr = None, sendMarkdownErr = None, pushNow = 20,
              recordPushErr = None\<rparr>"

definition chat_send_fails :: chat_outcome where
  "chat_send_fails = chat_ok\<lparr>sendMarkdownErr := Some ''Forbidden: bot was blocked by the user''\<rparr>"

definition chat_history_fails :: chat_outcome where
  "chat_history_fails = chat_ok\<lparr>hasPushedErr := Some ''connection lost''\<rparr>"

definition chat_record_fails :: chat_outcome where
  "chat_record_fails = chat_ok\<lparr>recordPushErr := Some ''connection lost''\<rparr>"

definition sweep_send_fails :: sweep_outcome where
  "sweep_send_fails =
     \<lparr>unpushedErr = None,
      videoOut = (\<lambda>i. \<lparr>subsOut = \<lparr>matchErr = None, chatOut = (\<lambda>j. chat_send_fails)\<rparr>,
                       markErr = None, markNow = 30\<rparr>)\<rparr>"

definition sample_world :: World where
  "sample_world =
     \<lparr>videos = [sample_video], subscriptions = [sample_sub SubTypeAll []],
      push_records = [], telegram_log = []\<rparr>"

text \<open>\<open>N\<close> calls of \<^verbatim>\<open>SaveVideo\<close> for one video, each with its outcome and clock reading.\<close>

fun save_calls :: "(error option \<times> nat) list \<Rightarrow> World \<Rightarrow> Video \<Rightarrow> World" where
  "save_calls [] w video = w"
| "save_calls ((dbErr, now) # outs) w video =
     save_calls outs (fst (SaveVideo dbErr now w video)) video"

text \<open>
  The operations of the store that write to the table \<open>videos\<close>, and a run of them. No
  operation of the store deletes a video.
\<close>

datatype store_write = WSaveVideo Video | WSaveVideos "Video list" | WMarkAsPushed nat

fun apply_write :: "error option \<Rightarrow> nat \<Rightarrow> World \<Rightarrow> store_write \<Rightarrow> World" where
  "apply_write dbErr now w (WSaveVideo v) = fst (SaveVideo dbErr now w v)"
| "apply_write dbErr now w (WSaveVideos vs) = fst (SaveVideos dbErr now w vs)"
| "apply_write dbErr now w (WMarkAsPushed videoID) = fst (MarkAsPushed dbErr now w videoID)"

fun apply_writes :: "(error option \<times> nat \<times> store_write) list \<Rightarrow> World \<Rightarrow> World" where
  "apply_writes [] w = w"
| "apply_writes ((dbErr, now, op) # ops) w = apply_writes ops (apply_write dbErr now w op)"

text \<open>
  A write that saves a video of the given code and that the database executes, whether
  alone or in a batch with other videos; and a write that is a save.
\<close>

fun saves_code :: "gostring \<Rightarrow> error option \<times> nat \<times> store_write \<Rightarrow> bool" where
  "saves_code code (dbErr, now, WSaveVideo v) = (dbErr = None \<and> Code v = code)"
| "saves_code code (dbErr, now, WSaveVideos vs) = (dbErr = None \<and> code \<in> set (map Code vs))"
| "saves_code code (dbErr, now, WMarkAsPushed videoID) = False"

fun is_save :: "error option \<times> nat \<times> store_write \<Rightarrow> bool" where
  "is_save (dbErr, now, WSaveVideo v) = True"
| "is_save (dbErr, now, WSaveVideos vs) = True"
| "is_save (dbErr, now, WMarkAsPushed videoID) = False"

text \<open>The rows of a code, and the delivered flags of the rows a table had before.\<close>

definition rows_of_code :: "World \<Rightarrow> gostring \<Rightarrow> Video list" where
  "rows_of_code w code = filter (\<lambda>r. Code r = code) (videos w)"

definition flags_kept :: "Video list \<Rightarrow> Video list \<Rightarrow> bool" where
  "flags_kept rows rows' =
     (length rows \<le> length rows'
      \<and> list_all2 (\<lambda>r r'. ID r' = ID r \<and> Code r' = Code r \<and> (Pushed r \<longrightarrow> Pushed r'))
           rows (take (length rows) rows'))"

section \<open>The HTTP crawler (internal/crawler)\<close>

text \<open>
  The paginated operations of \<^verbatim>\<open>HTTPCrawler\<close>. What the network, the parser and the
  headless browser answer for a page is the outcome of that page: whether the context is
  done when the loop reaches the page (\<^verbatim>\<open>ctx.Err()\<close>), the error of
  \<^verbatim>\<open>fetchWithRetry\<close> if the plain fetch fails, the result of \<^verbatim>\<open>ParseVideoList\<close> on the
  fetched page, and the result of \<^verbatim>\<open>crawlWithBrowser\<close> on the page's URL. The operations
  return the videos, the error, and the trace of the fetches and browser calls they made,
  each with its URL. Waiting (cookie warm-up, sleeps between pages) is not modelled.
\<close>

record page_outcome =
  ctxErr :: "error option"
  fetchErr :: "error option"
  parsed :: "error + Video list"
  browserVideos :: "error + Video list"

datatype crawl_event = Fetch gostring | Browser gostring

definition BaseURL :: gostring where
  "BaseURL = runes ''https://missav.ai''"

definition newVideosPath :: gostring where
  "newVideosPath = runes ''/new''"

definition actressesPath :: gostring where
  "actressesPath = runes ''/actresses/''"

definition searchPath :: gostring where
  "searchPath = runes ''/search/''"

text \<open>The decimal digits of a page number, as \<^verbatim>\<open>fmt.Sprintf("%d", page)\<close> prints them.\<close>

fun decimal :: "nat \<Rightarrow> gostring" where
  "decimal n = (if n < 10 then [48 + n] else decimal (n div 10) @ [48 + n mod 10])"

declare decimal.simps [simp del]

definition page_url :: "gostring \<Rightarrow> int \<Rightarrow> gostring" where
  "page_url base page =
     (if page > 1 then base @ runes ''?page='' @ decimal (nat page) else base)"

text \<open>
  \<^verbatim>\<open>func (c *HTTPCrawler) CrawlNewVideos(ctx, pages) ([]*model.Video, error)\<close>: the
  loop \<^verbatim>\<open>for page := 1; page <= pages; page++\<close>, entered at \<open>page\<close> with the videos and
  the trace so far. A \<^verbatim>\<open>continue\<close> goes on with the next page.
\<close>

function new_loop ::
  "(int \<Rightarrow> page_outcome) \<Rightarrow> int \<Rightarrow> int \<Rightarrow> Video list \<Rightarrow> crawl_event list
     \<Rightarrow> Video list \<times> error option \<times> crawl_event list" where
  "new_loop env pages page allVideos trace =
     (if page \<le> pages then
        (case ctxErr (env page) of
           Some e \<Rightarrow> (allVideos, Some e, trace)
         | None \<Rightarrow>
            (let pageURL = page_url (BaseURL @ newVideosPath) page;
                 trace1 = trace @ [Fetch pageURL]
             in case fetchErr (env page) of
                  Some e \<Rightarrow>
                    (if page = 1 then
                       (case browserVideos (env page) of
                          Inr vids \<Rightarrow>
                            (if length vids > 0
                             then new_loop env pages (page + 1) (allVideos @ vids)
                                    (trace1 @ [Browser pageURL])
                             else new_loop env pages (page + 1) allVideos
                                    (trace1 @ [Browser pageURL]))
                        | Inl browserErr \<Rightarrow>
                            new_loop env pages (page + 1) allVideos (trace1 @ [Browser pageURL]))
                     else new_loop env pages (page + 1) allVideos trace1)
                | None \<Rightarrow>
                    (case parsed (env page) of
                       Inl e \<Rightarrow> new_loop env pages (page + 1) allVideos trace1
                     | Inr vids \<Rightarrow>
                         (if page = 1 \<and> length vids = 0 then
                            (case browserVideos (env page) of
                               Inr browserVs \<Rightarrow>
                                 (if length browserVs > 0
                                  then new_loop env pages (page + 1) (allVideos @ browserVs)
                                         (trace1 @ [Browser pageURL])
                                  else new_loop env pages (page + 1) (allVideos @ vids)
                                         (trace1 @ [Browser pageURL]))
                             | Inl browserErr \<Rightarrow>
                                 new_loop env pages (page + 1) (allVideos @ vids)
                                   (trace1 @ [Browser pageURL]))
                          else new_loop env pages (page + 1) (allVideos @ vids) trace1))))
      else (allVideos, None, trace))"
  by pat_completeness auto
termination
  by (relation "measure (\<lambda>(env, pages, page, allVideos, trace). nat (pages + 1 - page))") auto

declare new_loop.simps [simp del]

definition CrawlNewVideos ::
  "(int \<Rightarrow> page_outcome) \<Rightarrow> int \<Rightarrow> Video list \<times> error option \<times> crawl_event list" where
  "CrawlNewVideos env pages = new_loop env pages 1 [] []"

text \<open>
  Go's \<^verbatim>\<open>int\<close> is 64 bits wide: a sum wraps around, and the quotient of a division is
  rounded towards zero.
\<close>

definition wrap64 :: "int \<Rightarrow> int" where
  "wrap64 x = (x + 2 ^ 63) mod 2 ^ 64 - 2 ^ 63"

definition go_quot :: "int \<Rightarrow> int \<Rightarrow> int" where
  "go_quot a b = sgn a * sgn b * (\<bar>a\<bar> div \<bar>b\<bar>)"

text \<open>\<^verbatim>\<open>maxPages := (limit + 11) / 12\<close>\<close>

definition maxPages_of :: "int \<Rightarrow> int" where
  "maxPages_of limit = go_quot (wrap64 (limit + 11)) 12"

text \<open>
  \<^verbatim>\<open>allVideos[:limit]\<close>: the first \<open>limit\<close> videos; a negative bound panics (the bound
  is at most the length where the code slices).
\<close>

definition slice_to :: "Video list \<Rightarrow> int \<Rightarrow> Video list \<times> error option" where
  "slice_to allVideos limit =
     (if limit < 0 \<or> limit > int (length allVideos)
      then (allVideos, Some ''panic: slice bounds out of range'')
      else (take (nat limit) allVideos, None))"

text \<open>
  \<^verbatim>\<open>func (c *HTTPCrawler) CrawlByActor(ctx, actorName, limit)\<close>: the loop
  \<^verbatim>\<open>for page <= maxPages\<close>. \<open>base\<close> is the URL of the first page,
  \<^verbatim>\<open>BaseURL + actressesPath + url.PathEscape(actorName)\<close>.
\<close>

function actor_loop ::
  "(int \<Rightarrow> page_outcome) \<Rightarrow> gostring \<Rightarrow> int \<Rightarrow> int \<Rightarrow> int \<Rightarrow> Video list \<Rightarrow> crawl_event list
     \<Rightarrow> Video list \<times> error option \<times> crawl_event list" where
  "actor_loop env base limit maxPages page allVideos trace =
     (if page \<le> maxPages then
        (case ctxErr (env page) of
           Some e \<Rightarrow> (allVideos, Some e, trace)
         | None \<Rightarrow>
            (let pageURL = page_url base page;
                 trace1 = trace @ [Fetch pageURL]
             in case fetchErr (env page) of
                  Some e \<Rightarrow> (allVideos, None, trace1)
                | None \<Rightarrow>
                    (case parsed (env page) of
                       Inl e \<Rightarrow> (allVideos, None, trace1)
                     | Inr vids \<Rightarrow>
                         (if length vids = 0 then (allVideos, None, trace1)
                          else let allVideos1 = allVideos @ vids
                               in if int (length allVideos1) \<ge> limit
                                  then (case slice_to allVideos1 limit of
                                          (vs, err) \<Rightarrow> (vs, err, trace1))
                                  else actor_loop env base limit maxPages (page + 1)
                                         allVideos1 trace1))))
      else (allVideos, None, trace))"
  by pat_completeness auto
termination
  by (relation "measure (\<lambda>(env, base, limit, maxPages, page, allVideos, trace).
                           nat (maxPages + 1 - page))") auto

declare actor_loop.simps [simp del]

definition CrawlByActor ::
  "(int \<Rightarrow> page_outcome) \<Rightarrow> gostring \<Rightarrow> int
     \<Rightarrow> Video list \<times> error option \<times> crawl_event list" where
  "CrawlByActor env encodedName limit =
     actor_loop env (BaseURL @ actressesPath @ encodedName) limit (maxPages_of limit) 1 [] []"

text \<open>
  \<^verbatim>\<open>func (c *HTTPCrawler) CrawlByKeyword(ctx, keyword, limit)\<close>: the same loop with the
  browser fallback on the first page. \<open>base\<close> is
  \<^verbatim>\<open>BaseURL + searchPath + url.PathEscape(keyword)\<close>.
\<close>

function keyword_loop ::
  "(int \<Rightarrow> page_outcome) \<Rightarrow> gostring \<Rightarrow> int \<Rightarrow> int \<Rightarrow> int \<Rightarrow> Video list \<Rightarrow> crawl_event list
     \<Rightarrow> Video list \<times> error option \<times> crawl_event list" where
  "keyword_loop env base limit maxPages page allVideos trace =
     (if page \<le> maxPages then
        (case ctxErr (env page) of
           Some e \<Rightarrow> (allVideos, Some e, trace)
         | None \<Rightarrow>
            (let pageURL = page_url base page;
                 trace1 = trace @ [Fetch pageURL]
             in case fetchErr (env page) of
                  Some e \<Rightarrow>
                    (if page = 1 then
                       (case browserVideos (env page) of
                          Inr browserVs \<Rightarrow>
                            (if length browserVs > 0
                             then keyword_loop env base limit maxPages (page + 1)
                                    (allVideos @ browserVs) (trace1 @ [Browser pageURL])
                             else (allVideos, None, trace1 @ [Browser pageURL]))
                        | Inl browserErr \<Rightarrow> (allVideos, None, trace1 @ [Browser pageURL]))
                     else (allVideos, None, trace1))
                | None \<Rightarrow>
                    (case parsed (env page) of
                       Inl e \<Rightarrow> (allVideos, None, trace1)
                     | Inr httpVideos \<Rightarrow>
                         (let (vids, trace2) =
                                (if page = 1 \<and> length httpVideos = 0 then
                                   (case browserVideos (env page) of
                                      Inr browserVs \<Rightarrow>
                                        (if length browserVs > 0 then browserVs else httpVideos,
                                         trace1 @ [Browser pageURL])
                                    | Inl browserErr \<Rightarrow> (httpVideos, trace1 @ [Browser pageURL]))
                                 else (httpVideos, trace1))
                          in if length vids = 0 then (allVideos, None, trace2)
                             else let allVideos1 = allVideos @ vids
                                  in if int (length allVideos1) \<ge> limit
                                     then (case slice_to allVideos1 limit of
                                             (vs, err) \<Rightarrow> (vs, err, trace2))
                                     else keyword_loop env base limit maxPages (page + 1)
                                            allVideos1 trace2))))
      else (allVideos, None, trace))"
  by pat_completeness auto
termination
  by (relation "measure (\<lambda>(env, base, limit, maxPages, page, allVideos, trace).
                           nat (maxPages + 1 - page))") auto

declare keyword_loop.simps [simp del]

definition CrawlByKeyword ::
  "(int \<Rightarrow> page_outcome) \<Rightarrow> gostring \<Rightarrow> int
     \<Rightarrow> Video list \<times> error option \<times> crawl_event list" where
  "CrawlByKeyword env encodedKeyword limit =
     keyword_loop env (BaseURL @ searchPath @ encodedKeyword) limit (maxPages_of limit) 1 [] []"

text \<open>Sample page outcomes for concrete evaluation.\<close>

definition video_coded :: "string \<Rightarrow> Video" where
  "video_coded code =
     \<lparr>ID = 0, Code = runes code, Title = [], Actresses = [], Tags = [], Duration = 0,
      ReleaseDate = None, CoverURL = [], PreviewURL = [], DetailURL = [], Pushed = False,
      CreatedAt = 0, UpdatedAt = 0\<rparr>"

definition page_with :: "Video list \<Rightarrow> page_outcome" where
  "page_with vs = \<lparr>ctxErr = None, fetchErr = None, parsed = Inr vs,
                   browserVideos = Inl ''browser not available''\<rparr>"

definition page_blocked :: "Video list \<Rightarrow> page_outcome" where
  "page_blocked vs = \<lparr>ctxErr = None, fetchErr = Some ''max retries exceeded: HTTP status 403'',
                      parsed = Inr [], browserVideos = Inr vs\<rparr>"

definition env_blocked_first :: "int \<Rightarrow> page_outcome" where
  "env_blocked_first page =
     (if page = 1 then page_blocked [video_coded ''AB-1'', video_coded ''AB-2'']
      else page_with [])"

definition env_gap :: "int \<Rightarrow> page_outcome" where
  "env_gap page =
     (if page = 1 then page_with [video_coded ''AB-1'']
      else if page = 2 then page_with []
      else page_with [video_coded ''AB-3''])"

text \<open>The URLs the browser fallback was called on, in the order of the calls.\<close>

fun browser_calls :: "crawl_event list \<Rightarrow> gostring list" where
  "browser_calls [] = []"
| "browser_calls (Fetch u # es) = browser_calls es"
| "browser_calls (Browser u # es) = u # browser_calls es"

text \<open>A draft the crawler hands to the store, with the flag set on purpose.\<close>

definition sample_new_video :: Video where
  "sample_new_video = sample_video\<lparr>ID := 0, Code := runes ''ABP-123'', Pushed := True\<rparr>"

text \<open>
  Another draft, and a run of writes on the sample store: the batch of a crawl that mixes
  a known video with the two drafts, a batch the database refuses, later saves of the
  same drafts, and the mark of the row with key 8.
\<close>

definition sample_third_video :: Video where
  "sample_third_video = sample_video\<lparr>ID := 0, Code := runes ''IPX-777''\<rparr>"

definition sample_writes :: "(error option \<times> nat \<times> store_write) list" where
  "sample_writes =
     [(None, 40, WSaveVideos [sample_video, sample_new_video, sample_third_video]),
      (Some ''connection lost'', 41, WSaveVideos [sample_new_video]),
      (None, 42, WSaveVideo sample_new_video),
      (None, 43, WMarkAsPushed 8),
      (None, 44, WSaveVideos [sample_third_video, sample_new_video])]"

definition env_first_empty :: "int \<Rightarrow> page_outcome" where
  "env_first_empty page =
     (if page = 1
      then \<lparr>ctxErr = None, fetchErr = None, parsed = Inr [],
            browserVideos = Inr [video_coded ''AB-1'', video_coded ''AB-2'']\<rparr>
      else if page = 2 then page_with []
      else page_with [video_coded ''AB-3''])"

section \<open>The scheduler's try-lock (internal/scheduler)\<close>

text \<open>
  \<^verbatim>\<open>TryRun\<close> and \<^verbatim>\<open>executeCrawl\<close> follow one protocol on the scheduler's mutex
  \<^verbatim>\<open>mu\<close> and its flag \<^verbatim>\<open>running\<close>: \<^verbatim>\<open>TryLock\<close>; if it fails, return (false); otherwise
  \<^verbatim>\<open>running.Store(true)\<close>, \<^verbatim>\<open>RunOnce\<close>, and on the way out the deferred calls in reverse
  order, \<^verbatim>\<open>running.Store(false)\<close> and then \<^verbatim>\<open>mu.Unlock()\<close>; return (true). Each of these is one
  atomic step of the trigger that takes it, and the steps of different triggers interleave
  in any order: a schedule is the list of the triggers' numbers in the order of their
  steps. A trigger's program counter says which step it takes next. What \<^verbatim>\<open>RunOnce\<close> does
  to the store is not modelled here; the scheduler counts the cycles it starts and ends.
  For a timer firing, \<open>Returned b\<close> records whether the firing ran a cycle.
\<close>

datatype pc = Start | Locked | InCycle | CycleDone | Cleared | Returned bool

record scheduler =
  mu :: bool
  running :: bool
  cycles_started :: nat
  cycles_done :: nat
  pcs :: "pc list"

definition step :: "scheduler \<Rightarrow> nat \<Rightarrow> scheduler" where
  "step s i =
     (if i < length (pcs s) then
        (case pcs s ! i of
           Start \<Rightarrow>
             (if mu s then s\<lparr>pcs := (pcs s)[i := Returned False]\<rparr>
              else s\<lparr>mu := True, pcs := (pcs s)[i := Locked]\<rparr>)
         | Locked \<Rightarrow>
             s\<lparr>running := True, cycles_started := Suc (cycles_started s),
               pcs := (pcs s)[i := InCycle]\<rparr>
         | InCycle \<Rightarrow> s\<lparr>cycles_done := Suc (cycles_done s), pcs := (pcs s)[i := CycleDone]\<rparr>
         | CycleDone \<Rightarrow> s\<lparr>running := False, pcs := (pcs s)[i := Cleared]\<rparr>
         | Cleared \<Rightarrow> s\<lparr>mu := False, pcs := (pcs s)[i := Returned True]\<rparr>
         | Returned b \<Rightarrow> s)
      else s)"

definition run_schedule :: "nat list \<Rightarrow> scheduler \<Rightarrow> scheduler" where
  "run_schedule schedule s = fold (\<lambda>i s. step s i) schedule s"

text \<open>
  A fresh scheduler with \<open>n\<close> triggers issued against it: all \<open>n\<close> calls have begun,
  none has tried the lock yet.
\<close>

definition init_scheduler :: "nat \<Rightarrow> scheduler" where
  "init_scheduler n =
     \<lparr>mu = False, running = False, cycles_started = 0, cycles_done = 0,
      pcs = replicate n Start\<rparr>"

definition count_pc :: "(pc \<Rightarrow> bool) \<Rightarrow> scheduler \<Rightarrow> nat" where
  "count_pc P s = length (filter P (pcs s))"

text \<open>A trigger holds the lock from its successful \<^verbatim>\<open>TryLock\<close> to its \<^verbatim>\<open>Unlock\<close>.\<close>

definition holds_lock :: "pc \<Rightarrow> bool" where
  "holds_lock p = (p = Locked \<or> p = InCycle \<or> p = CycleDone \<or> p = Cleared)"

definition all_returned :: "scheduler \<Rightarrow> bool" where
  "all_returned s = list_all (\<lambda>p. p = Returned True \<or> p = Returned False) (pcs s)"

definition sched_inv :: "scheduler \<Rightarrow> bool" where
  "sched_inv s =
     (count_pc holds_lock s = (if mu s then 1 else 0)
      \<and> cycles_started s
          = count_pc (\<lambda>p. p = InCycle \<or> p = CycleDone \<or> p = Cleared \<or> p = Returned True) s
      \<and> cycles_done s = count_pc (\<lambda>p. p = CycleDone \<or> p = Cleared \<or> p = Returned True) s
      \<and> running s = (0 < count_pc (\<lambda>p. p = InCycle \<or> p = CycleDone) s)
      \<and> (count_pc (\<lambda>p. p = Start) s < length (pcs s)
           \<longrightarrow> 0 < count_pc holds_lock s + count_pc (\<lambda>p. p = Returned True) s))"

section \<open>Properties of code normalisation\<close>

lemma unicode_ToUpper_idem:
  assumes "upper_table_closed upperCase"
  shows "unicode_ToUpper upperCase (unicode_ToUpper upperCase r) = unicode_ToUpper upperCase r"
proof (cases "r \<le> 127")
  case True
  then show ?thesis by (auto simp: unicode_ToUpper_def)
next
  case False
  then have "unicode_ToUpper upperCase r = upperCase r"
    by (simp add: unicode_ToUpper_def)
  moreover from False assms have "unicode_ToUpper upperCase (upperCase r) = upperCase r"
    by (simp add: upper_table_closed_def)
  ultimately show ?thesis by simp
qed

lemma strings_ToUpper_idem:
  assumes "upper_table_closed upperCase"
  shows "strings_ToUpper upperCase (strings_ToUpper upperCase s) = strings_ToUpper upperCase s"
  by (simp add: strings_ToUpper_def unicode_ToUpper_idem [OF assms])

lemma upperCase_fragment_closed: "upper_table_closed upperCase_fragment"
  by (auto simp: upper_table_closed_def upperCase_fragment_def unicode_ToUpper_def)

lemma strings_ToUpper_idem_ascii:
  assumes "\<forall>r \<in> set s. r \<le> 127"
  shows "strings_ToUpper upperCase (strings_ToUpper upperCase s) = strings_ToUpper upperCase s"
  using assms by (auto simp: strings_ToUpper_def unicode_ToUpper_def)

text \<open>
  Claim C7. For every input string \<open>x\<close>, \<open>NormalizeCode\<close> is idempotent, and its
  result equals its own upper-case form. For a string of ASCII code points the case
  mapping is computed by the model and nothing is assumed; for a string with code points
  beyond ASCII the statement uses the closure property of the library's upper-case table.
\<close>

theorem NormalizeCode_idempotent_upper:
  assumes "upper_table_closed upperCase \<or> (\<forall>r \<in> set x. r \<le> 127)"
  shows "NormalizeCode upperCase (NormalizeCode upperCase x) = NormalizeCode upperCase x
       \<and> strings_ToUpper upperCase (NormalizeCode upperCase x) = NormalizeCode upperCase x"
proof -
  from assms
  have "strings_ToUpper upperCase (strings_ToUpper upperCase x) = strings_ToUpper upperCase x"
    using strings_ToUpper_idem [of upperCase x] strings_ToUpper_idem_ascii [of x upperCase]
    by blast
  then show ?thesis
    by (simp add: NormalizeCode_def strings_ToUpper_def)
qed

theorem NormalizeCode_idempotent_upper_witness:
  "upper_table_closed upperCase_fragment
   \<and> NormalizeCode upperCase_fragment (runes ''ssis-001'') = runes ''SSIS-001''
   \<and> NormalizeCode upperCase_fragment (NormalizeCode upperCase_fragment (runes ''ssis-001''))
       = NormalizeCode upperCase_fragment (runes ''ssis-001'')
   \<and> NormalizeCode upperCase_fragment [383, 233, 45, 49] = [83, 201, 45, 49]
   \<and> NormalizeCode upperCase_fragment (NormalizeCode upperCase_fragment [383, 233, 45, 49])
       = NormalizeCode upperCase_fragment [383, 233, 45, 49]
   \<and> strings_ToUpper upperCase_fragment (NormalizeCode upperCase_fragment [383, 233, 45, 49])
       = NormalizeCode upperCase_fragment [383, 233, 45, 49]"
proof -
  have c: "upper_table_closed upperCase_fragment \<or> (\<forall>r \<in> set x. r \<le> 127)" for x
    using upperCase_fragment_closed by simp
  have e1: "NormalizeCode upperCase_fragment (runes ''ssis-001'') = runes ''SSIS-001''"
    by (simp add: NormalizeCode_def strings_ToUpper_def unicode_ToUpper_def runes_def)
  have e2: "NormalizeCode upperCase_fragment [383, 233, 45, 49] = [83, 201, 45, 49]"
    by (simp add: NormalizeCode_def strings_ToUpper_def unicode_ToUpper_def
        upperCase_fragment_def)
  from NormalizeCode_idempotent_upper [OF c, of "runes ''ssis-001''"]
    NormalizeCode_idempotent_upper [OF c, of "[383, 233, 45, 49]"]
    upperCase_fragment_closed e1 e2
  show ?thesis by (simp only: simp_thms)
qed

section \<open>Properties of code extraction\<close>

lemma spec_has_code_ascii_letter:
  assumes "spec_has_code x"
  shows "\<exists>r \<in> set x. ascii_letter r"
proof -
  from assms obtain pre ls ds post where x: "x = pre @ (ls @ 45 # ds) @ post"
    and ls: "ls \<noteq> []" "list_all ascii_letter ls"
    unfolding spec_has_code_def spec_code_shape_def by blast
  from ls have "hd ls \<in> set ls" "ascii_letter (hd ls)"
    by (auto simp: list_all_iff)
  with x show ?thesis by auto
qed

text \<open>
  Claim C6, at an input where the code leaves it. The text \<open>U+017F - 1\<close> (long s, hyphen,
  digit one) holds no ASCII letter, hence no substring of the shape
  \<^verbatim>\<open>[A-Za-z]+-[0-9]+\<close>; the claim has \<open>ExtractCode\<close> return the empty string there. The
  case-folded class of the compiled pattern accepts the long s, and \<open>ExtractCode\<close> returns
  the upper-cased three code points. Followed by \<open>ab-2\<close>, the same prefix is returned in
  place of the leftmost ASCII code. The Kelvin sign U+212A is accepted in the same way; the
  library's table gives it no other upper case, so the code returned for \<open>U+212A - 1\<close>
  starts with a letter outside \<open>A-Z\<close>.
\<close>

theorem ExtractCode_long_s:
  "\<not> spec_has_code [383, 45, 49]
   \<and> ExtractCode upperCase [383, 45, 49] = [upperCase 383, 45, 49]
   \<and> ExtractCode upperCase [383, 45, 49] \<noteq> []
   \<and> spec_has_code ([383, 45, 49] @ runes '' ab-2'')
   \<and> ExtractCode upperCase ([383, 45, 49] @ runes '' ab-2'') = [upperCase 383, 45, 49]
   \<and> \<not> spec_has_code [8490, 45, 49]
   \<and> ExtractCode upperCase [8490, 45, 49] = [upperCase 8490, 45, 49]"
proof -
  have no: "\<not> spec_has_code [383, 45, 49]"
    using spec_has_code_ascii_letter [of "[383, 45, 49]"] by (auto simp: ascii_letter_def)
  have nok: "\<not> spec_has_code [8490, 45, 49]"
    using spec_has_code_ascii_letter [of "[8490, 45, 49]"] by (auto simp: ascii_letter_def)
  have ek: "ExtractCode upperCase [8490, 45, 49] = [upperCase 8490, 45, 49]"
    by (simp add: ExtractCode_def NormalizeCode_def strings_ToUpper_def unicode_ToUpper_def
        codePattern_match_here_def codePattern_letter_def codePattern_digit_def)
  have m: "codePattern_match_here (383 # 45 # 49 # rest) = Some [383, 45, 49]"
    if "rest = [] \<or> rest = runes '' ab-2''" for rest
    using that
    by (auto simp: codePattern_match_here_def codePattern_letter_def codePattern_digit_def
        runes_def)
  have e1: "ExtractCode upperCase [383, 45, 49] = [upperCase 383, 45, 49]"
    using m [of "[]"]
    by (simp add: ExtractCode_def NormalizeCode_def strings_ToUpper_def unicode_ToUpper_def)
  have e2: "ExtractCode upperCase ([383, 45, 49] @ runes '' ab-2'') = [upperCase 383, 45, 49]"
    using m [of "runes '' ab-2''"]
    by (simp add: ExtractCode_def NormalizeCode_def strings_ToUpper_def unicode_ToUpper_def)
  have "spec_code_shape (runes ''ab-2'')"
    unfolding spec_code_shape_def
    by (rule exI [of _ "runes ''ab''"], rule exI [of _ "runes ''2''"])
      (simp add: runes_def ascii_letter_def codePattern_digit_def)
  moreover have "[383, 45, 49] @ runes '' ab-2'' = ([383, 45, 49] @ runes '' '') @ runes ''ab-2'' @ []"
    by (simp add: runes_def)
  ultimately have has: "spec_has_code ([383, 45, 49] @ runes '' ab-2'')"
    unfolding spec_has_code_def by blast
  from no e1 e2 has nok ek show ?thesis by simp
qed

text \<open>
  The two code points are the whole of the difference. A text that holds a substring of
  the shape \<^verbatim>\<open>[A-Za-z]+-[0-9]+\<close> always yields a match; and on a text that holds neither
  the long s nor the Kelvin sign, the match found has that shape and \<open>ExtractCode\<close>
  returns the empty string exactly when the text holds no such substring.
\<close>

lemma ascii_letter_codePattern: "ascii_letter r \<Longrightarrow> codePattern_letter r"
  by (auto simp: ascii_letter_def codePattern_letter_def)

lemma hyphen_no_letter: "\<not> codePattern_letter 45"
  by (simp add: codePattern_letter_def)

lemma match_here_shape:
  assumes "ls \<noteq> []" "list_all codePattern_letter ls" "ds \<noteq> []" "list_all codePattern_digit ds"
  shows "codePattern_match_here (ls @ 45 # ds @ post)
           = Some (ls @ [45] @ ds @ takeWhile codePattern_digit post)"
proof -
  from assms(2) have l: "\<forall>r \<in> set ls. codePattern_letter r"
    by (simp add: list_all_iff)
  from assms(4) have d: "\<forall>r \<in> set ds. codePattern_digit r"
    by (simp add: list_all_iff)
  have tl: "takeWhile codePattern_letter (ls @ 45 # ds @ post) = ls"
    using l hyphen_no_letter by (simp add: takeWhile_append2)
  have dl: "dropWhile codePattern_letter (ls @ 45 # ds @ post) = 45 # ds @ post"
    using l hyphen_no_letter by (simp add: dropWhile_append2)
  have td: "takeWhile codePattern_digit (ds @ post) = ds @ takeWhile codePattern_digit post"
    using d by (simp add: takeWhile_append2)
  from assms(1,3) show ?thesis
    by (simp add: codePattern_match_here_def tl dl td Let_def)
qed

lemma FindString_append:
  "codePattern_match_here t \<noteq> None \<Longrightarrow> codePattern_FindString (pre @ t) \<noteq> None"
proof (induction pre)
  case Nil
  then obtain m where m: "codePattern_match_here t = Some m" by blast
  have "codePattern_match_here [] = None"
    by (simp add: codePattern_match_here_def)
  with m obtain c cs where "t = c # cs" by (cases t) auto
  with m show ?case by simp
next
  case (Cons c pre)
  then show ?case by (simp split: option.splits)
qed

lemma spec_has_code_found:
  assumes "spec_has_code x"
  shows "codePattern_FindString x \<noteq> None"
proof -
  from assms obtain pre ls ds post where x: "x = pre @ (ls @ 45 # ds) @ post"
    and s: "ls \<noteq> []" "ds \<noteq> []" "list_all ascii_letter ls" "list_all codePattern_digit ds"
    unfolding spec_has_code_def spec_code_shape_def by blast
  from s(3) have "list_all codePattern_letter ls"
    by (auto simp: list_all_iff ascii_letter_codePattern)
  with s have "codePattern_match_here (ls @ 45 # ds @ post) \<noteq> None"
    by (simp add: match_here_shape)
  then have "codePattern_FindString (pre @ (ls @ 45 # ds @ post)) \<noteq> None"
    by (rule FindString_append)
  with x show ?thesis by simp
qed

lemma match_here_Some:
  assumes "codePattern_match_here t = Some m"
  shows "\<exists>ls ds post. t = m @ post \<and> m = ls @ 45 # ds \<and> ls \<noteq> [] \<and> ds \<noteq> []
           \<and> list_all codePattern_letter ls \<and> list_all codePattern_digit ds"
proof -
  let ?ls = "takeWhile codePattern_letter t"
  let ?rest = "dropWhile codePattern_letter t"
  from assms have ne: "?ls \<noteq> []"
    by (auto simp: codePattern_match_here_def Let_def split: if_splits)
  from assms ne obtain rest' where r: "?rest = 45 # rest'"
    by (auto simp: codePattern_match_here_def Let_def split: if_splits list.splits)
  let ?ds = "takeWhile codePattern_digit rest'"
  from assms ne r have d: "?ds \<noteq> []" and m: "m = ?ls @ 45 # ?ds"
    by (auto simp: codePattern_match_here_def Let_def split: if_splits)
  have "t = ?ls @ ?rest" by simp
  also have "\<dots> = ?ls @ 45 # (?ds @ dropWhile codePattern_digit rest')"
    using r by simp
  finally have "t = m @ dropWhile codePattern_digit rest'"
    using m by simp
  moreover have "list_all codePattern_letter ?ls" "list_all codePattern_digit ?ds"
    by (auto simp: list_all_iff dest: set_takeWhileD)
  ultimately show ?thesis using ne d m by blast
qed

lemma FindString_Some:
  assumes "codePattern_FindString x = Some m"
  shows "\<exists>pre t. x = pre @ t \<and> codePattern_match_here t = Some m"
  using assms
proof (induction x)
  case Nil
  then show ?case by simp
next
  case (Cons c cs)
  show ?case
  proof (cases "codePattern_match_here (c # cs)")
    case (Some m')
    with Cons.prems have "c # cs = [] @ (c # cs) \<and> codePattern_match_here (c # cs) = Some m"
      by simp
    then show ?thesis by blast
  next
    case None
    with Cons.prems have "codePattern_FindString cs = Some m" by simp
    with Cons.IH obtain pre t where "cs = pre @ t" "codePattern_match_here t = Some m" by blast
    then have "c # cs = (c # pre) @ t \<and> codePattern_match_here t = Some m" by simp
    then show ?thesis by blast
  qed
qed

lemma FindString_found_spec:
  assumes "codePattern_FindString x = Some m" "383 \<notin> set x" "8490 \<notin> set x"
  shows "spec_code_shape m \<and> (\<exists>pre post. x = pre @ m @ post)"
proof -
  from FindString_Some [OF assms(1)] obtain pre t where x: "x = pre @ t"
    and t: "codePattern_match_here t = Some m" by blast
  from match_here_Some [OF t] obtain ls ds post where
    tm: "t = m @ post" and m: "m = ls @ 45 # ds" and s: "ls \<noteq> []" "ds \<noteq> []"
    "list_all codePattern_letter ls" "list_all codePattern_digit ds" by blast
  from x tm m have "set ls \<subseteq> set x" by auto
  with assms(2,3) s(3) have "list_all ascii_letter ls"
    by (auto simp: list_all_iff codePattern_letter_def ascii_letter_def)
  with m s have "spec_code_shape m"
    unfolding spec_code_shape_def by blast
  with x tm show ?thesis by blast
qed

lemma NormalizeCode_empty_iff: "NormalizeCode up m = [] \<longleftrightarrow> m = []"
  by (simp add: NormalizeCode_def strings_ToUpper_def)

lemma ExtractCode_ascii_fold_free:
  assumes "383 \<notin> set x" "8490 \<notin> set x"
  shows "ExtractCode up x = [] \<longleftrightarrow> \<not> spec_has_code x"
proof (cases "codePattern_FindString x")
  case None
  with spec_has_code_found [of x] show ?thesis
    by (auto simp: ExtractCode_def)
next
  case (Some m)
  from FindString_found_spec [OF Some assms] have sh: "spec_code_shape m"
    and "\<exists>pre post. x = pre @ m @ post" by blast+
  then have "spec_has_code x" unfolding spec_has_code_def by blast
  moreover from sh have "m \<noteq> []" by (auto simp: spec_code_shape_def)
  ultimately show ?thesis
    using Some by (auto simp: ExtractCode_def NormalizeCode_empty_iff)
qed

section \<open>Properties of subscription matching\<close>



lemma SubType_distinct:
  "SubTypeAll \<noteq> SubTypeActress" "SubTypeAll \<noteq> SubTypeTag" "SubTypeActress \<noteq> SubTypeTag"
  "SubTypeActress \<noteq> SubTypeAll" "SubTypeTag \<noteq> SubTypeAll" "SubTypeTag \<noteq> SubTypeActress"
  by (simp_all add: SubTypeAll_def SubTypeActress_def SubTypeTag_def runes_def)











lemma strings_Contains_empty: "strings_Contains x []"
  by (induction x) simp_all

text \<open>
  Claim C10. For every video, a subscription of type ACTRESS or TAG whose keyword is the
  empty string matches, as one of type ALL does, and when it is enabled the store returns
  it among the matching subscriptions of the video; the argument \<open>#\<close> of
  \<^verbatim>\<open>/subscribe\<close> yields type TAG with the empty keyword, and the subscription built from
  it matches every video.
\<close>

theorem empty_keyword_matches_every_video:
  "((Type s = SubTypeActress \<or> Type s = SubTypeTag) \<and> Keyword s = []
      \<longrightarrow> MatchesSubscription lc (Some v) (Some s)
          \<and> (Enabled s \<and> s \<in> set (subscriptions w)
               \<longrightarrow> (\<exists>subs. GetMatchingSubscriptions None lc w v = Inr subs \<and> s \<in> set subs)))
   \<and> DetermineSubscriptionType (runes ''#'') = (SubTypeTag, [])
   \<and> MatchesSubscription lc (Some v) (Some (handleSubscribe_sub chatID chatType (runes ''#'')))"
proof -
  note e = strings_Contains_empty
  have d: "DetermineSubscriptionType (runes ''#'') = (SubTypeTag, [])"
    by (simp add: DetermineSubscriptionType_def strings_TrimSpace_def unicode_IsSpace_def
        strings_HasPrefix_def strings_TrimPrefix_def runes_def)
  have m: "MatchesSubscription lc (Some v) (Some s)"
    if "Type s = SubTypeActress \<or> Type s = SubTypeTag" "Keyword s = []"
    using that by (auto simp: e MatchesSubscription_def strings_ToLower_def SubType_distinct)
  have g: "\<exists>subs. GetMatchingSubscriptions None lc w v = Inr subs \<and> s \<in> set subs"
    if "Type s = SubTypeActress \<or> Type s = SubTypeTag" "Keyword s = []" "Enabled s"
      "s \<in> set (subscriptions w)"
    using that
    by (auto simp: e GetMatchingSubscriptions_def GetAllSubscriptions_def matchesSubscription_def
        containsIgnoreCase_def strings_ToLower_def SubType_distinct)
  have h: "MatchesSubscription lc (Some v) (Some (handleSubscribe_sub chatID chatType (runes ''#'')))"
    by (simp add: d e MatchesSubscription_def handleSubscribe_sub_def strings_ToLower_def
        SubType_distinct)
  from d m g h show ?thesis by blast
qed

theorem empty_keyword_matches_every_video_witness:
  "Type (sample_sub SubTypeActress []) = SubTypeActress
   \<and> Keyword (sample_sub SubTypeActress []) = []
   \<and> MatchesSubscription lowerCase_fragment (Some sample_video)
       (Some (sample_sub SubTypeActress []))
   \<and> Enabled (sample_sub SubTypeActress [])
   \<and> GetMatchingSubscriptions None lowerCase_fragment
        (sample_world\<lparr>subscriptions := [sample_sub SubTypeActress []]\<rparr>) sample_video
       = Inr [sample_sub SubTypeActress []]
   \<and> MatchesSubscription lowerCase_fragment (Some sample_video)
       (Some (handleSubscribe_sub 100 (runes ''private'') (runes ''#'')))"
proof -
  let ?s = "sample_sub SubTypeActress []"
  let ?w = "sample_world\<lparr>subscriptions := [?s]\<rparr>"
  have f: "Type ?s = SubTypeActress" "Keyword ?s = []" "Enabled ?s" "?s \<in> set (subscriptions ?w)"
    by (simp_all add: sample_sub_def)
  have one: "filter Enabled (subscriptions ?w) = [?s]"
    by (simp add: sample_sub_def)
  from empty_keyword_matches_every_video
         [of ?s lowerCase_fragment sample_video ?w 100 "runes ''private''"] f
  have m: "MatchesSubscription lowerCase_fragment (Some sample_video) (Some ?s)"
    and g: "\<exists>subs. GetMatchingSubscriptions None lowerCase_fragment ?w sample_video = Inr subs
              \<and> ?s \<in> set subs"
    and h: "MatchesSubscription lowerCase_fragment (Some sample_video)
              (Some (handleSubscribe_sub 100 (runes ''private'') (runes ''#'')))"
    by blast+
  from g have g': "GetMatchingSubscriptions None lowerCase_fragment ?w sample_video = Inr [?s]"
    unfolding GetMatchingSubscriptions_def GetAllSubscriptions_def
    by (auto simp: one split: if_splits)
  from f m g' h show ?thesis by (simp only: simp_thms)
qed

section \<open>Properties of the push service\<close>

lemma PushVideoToSubscribers_error:
  "snd (PushVideoToSubscribers out lc w v) = None \<longleftrightarrow> matchErr out = None"
  by (simp add: PushVideoToSubscribers_def GetMatchingSubscriptions_def GetAllSubscriptions_def
      split: option.splits sum.splits)

lemma sweep_send_fails_result:
  "PushUnpushedVideos sweep_send_fails lowerCase_fragment sample_world
     = (sample_world
          \<lparr>videos := [sample_video\<lparr>Pushed := True, UpdatedAt := 30\<rparr>],
           push_records :=
             [\<lparr>RecID = 1, VideoID = 7, RecChatID = 100, Status = PushStatusFailed,
               FailReason = runes ''Forbidden: bot was blocked by the user'',
               MessageID = 0, PushedAt = 20, RecCreatedAt = 20\<rparr>],
           telegram_log := [TgSendMarkdown 100 7]\<rparr>, None)"
  by (simp add: PushUnpushedVideos_def GetUnpushedVideos_def sample_world_def sample_video_def
      sample_sub_def sweep_send_fails_def PushVideoToSubscribers_def GetMatchingSubscriptions_def
      GetAllSubscriptions_def matchesSubscription_def PushVideoToChat_def HasPushed_def
      count_success_def chat_send_fails_def chat_ok_def log_call_def RecordPush_def next_id_def
      MarkAsPushed_def)

text \<open>
  Claim C1, at an input where the code leaves it. The store holds one undelivered video
  and one enabled subscription of type ALL for chat 100; the only send of the sweep, to
  chat 100, fails. The claim has the sweep leave the video's delivered flag false.
  \<open>PushVideoToSubscribers\<close> logs the error of \<open>PushVideoToChat\<close> and returns nil, so the
  sweep calls \<open>MarkAsPushed\<close>: after it the only push record of the pair is FAILED, the
  flag is true, and the next sweep finds no undelivered video, so chat 100 is never tried
  again.
\<close>

theorem sweep_marks_video_after_failed_send:
  "(case PushUnpushedVideos sweep_send_fails lowerCase_fragment sample_world of
      (w', err) \<Rightarrow>
        err = None
        \<and> telegram_log w' = [TgSendMarkdown 100 7]
        \<and> map Status (push_records w') = [PushStatusFailed]
        \<and> count_success w' (ID sample_video) 100 = 0
        \<and> map Pushed (videos w') = [True]
        \<and> GetUnpushedVideos None w' = Inr [])
   \<and> map Pushed (videos sample_world) = [False]
   \<and> GetMatchingSubscriptions None lowerCase_fragment sample_world sample_video
        = Inr [sample_sub SubTypeAll []]"
  by (simp add: sweep_send_fails_result)
    (simp add: sample_world_def sample_video_def sample_sub_def count_success_def
      PushStatusFailed_def PushStatusSuccess_def runes_def GetUnpushedVideos_def
      GetMatchingSubscriptions_def GetAllSubscriptions_def matchesSubscription_def)

lemma count_success_log_call:
  "count_success (log_call c w) videoID chatID = count_success w videoID chatID"
  by (simp add: count_success_def log_call_def)

lemma count_success_RecordPush:
  "count_success (fst (RecordPush dbErr now w r)) videoID chatID
     = count_success w videoID chatID
       + (if dbErr = None \<and> VideoID r = videoID \<and> RecChatID r = chatID
             \<and> Status r = PushStatusSuccess then 1 else 0)"
  by (simp add: count_success_def RecordPush_def split: option.splits)

lemma PushVideoToChat_noop:
  assumes "0 < count_success w (ID video) chatID"
  shows "PushVideoToChat out w video chatID
           = (w, case hasPushedErr out of
                   None \<Rightarrow> None
                 | Some e \<Rightarrow> Some (''failed to check push history: ''
                                    @ ''failed to check push status: '' @ e))"
  using assms by (simp add: PushVideoToChat_def HasPushed_def split: option.splits)

lemma PushVideoToChat_count_le:
  "count_success (fst (PushVideoToChat out w video chatID)) videoID' chatID'
     \<le> (if videoID' = ID video \<and> chatID' = chatID \<and> count_success w (ID video) chatID = 0
         then 1 else count_success w videoID' chatID')"
  by (auto simp: PushVideoToChat_def HasPushed_def count_success_RecordPush
      count_success_log_call Let_def split: option.splits prod.splits if_splits)

lemma PushVideoToChat_keeps_bound:
  assumes "count_success w (ID video) chatID \<le> 1"
  shows "count_success (fst (PushVideoToChat out w video chatID)) (ID video) chatID \<le> 1"
  using PushVideoToChat_count_le [of out w video chatID "ID video" chatID] assms
  by (simp split: if_splits)

lemma push_calls_keeps_bound:
  assumes "count_success w (ID video) chatID \<le> 1"
  shows "count_success (push_calls outs w video chatID) (ID video) chatID \<le> 1"
  using assms
proof (induction outs arbitrary: w)
  case Nil
  then show ?case by simp
next
  case (Cons out outs)
  from Cons.prems
  have "count_success (fst (PushVideoToChat out w video chatID)) (ID video) chatID \<le> 1"
    by (rule PushVideoToChat_keeps_bound)
  then show ?case using Cons.IH by simp
qed

lemma push_calls_noop:
  assumes "0 < count_success w (ID video) chatID"
  shows "push_calls outs w video chatID = w"
  using assms
  by (induction outs) (simp_all add: PushVideoToChat_noop)

lemma PushVideoToChat_first_success:
  assumes "count_success w (ID video) chatID = 0" "snd (PushVideoToChat out w video chatID) = None"
  shows "count_success (fst (PushVideoToChat out w video chatID)) (ID video) chatID
           = (if recordPushErr out = None then 1 else 0)"
  using assms
  by (auto simp: PushVideoToChat_def HasPushed_def count_success_RecordPush
      count_success_log_call Let_def split: option.splits prod.splits if_splits)

lemma PushVideoToChat_error_no_success:
  assumes "snd (PushVideoToChat out w video chatID) \<noteq> None"
  shows "count_success (fst (PushVideoToChat out w video chatID)) videoID' chatID'
           = count_success w videoID' chatID'"
  using assms
  by (auto simp: PushVideoToChat_def HasPushed_def count_success_RecordPush
      count_success_log_call Let_def PushStatusFailed_def PushStatusSuccess_def runes_def
      split: option.splits prod.splits if_splits)

lemma push_calls_after_recorded_success:
  assumes "count_success w (ID video) chatID = 0"
    "snd (PushVideoToChat out w video chatID) = None" "recordPushErr out = None"
  shows "push_calls (out # outs) w video chatID = fst (PushVideoToChat out w video chatID)"
proof -
  from PushVideoToChat_first_success [OF assms(1,2)] assms(3)
  have "0 < count_success (fst (PushVideoToChat out w video chatID)) (ID video) chatID"
    by simp
  then show ?thesis by (simp add: push_calls_noop)
qed

lemma push_calls_ok_sample:
  "push_calls [chat_ok] sample_world sample_video 100
     = sample_world
         \<lparr>push_records :=
            [\<lparr>RecID = 1, VideoID = 7, RecChatID = 100, Status = PushStatusSuccess,
              FailReason = [], MessageID = 0, PushedAt = 20, RecCreatedAt = 20\<rparr>],
          telegram_log := [TgSendMarkdown 100 7]\<rparr>"
  by (simp add: sample_world_def sample_video_def PushVideoToChat_def HasPushed_def
      count_success_def chat_ok_def log_call_def RecordPush_def next_id_def
      PushStatusFailed_def PushStatusSuccess_def runes_def)

text \<open>
  Claim C2 as stated fails in its second half. First, chat 100 holds a SUCCESS record of
  the video and the history query of the next call fails: the call returns the error
  \<^verbatim>\<open>failed to check push history\<close>, not success. Second, on a store with no record of
  the pair a call sends the message and returns nil while the insert of its push record
  fails: no SUCCESS record exists after this successful call, so the next call sends the
  message a second time and creates a push record.
\<close>

theorem later_call_fails_or_sends_again:
  "count_success (push_calls [chat_ok] sample_world sample_video 100) (ID sample_video) 100 = 1
   \<and> snd (PushVideoToChat chat_history_fails
            (push_calls [chat_ok] sample_world sample_video 100) sample_video 100)
       = Some ''failed to check push history: failed to check push status: connection lost''
   \<and> PushVideoToChat chat_record_fails sample_world sample_video 100
       = (sample_world\<lparr>telegram_log := [TgSendMarkdown 100 7]\<rparr>, None)
   \<and> PushVideoToChat chat_ok (sample_world\<lparr>telegram_log := [TgSendMarkdown 100 7]\<rparr>)
        sample_video 100
       = (sample_world
            \<lparr>push_records :=
               [\<lparr>RecID = 1, VideoID = 7, RecChatID = 100, Status = PushStatusSuccess,
                 FailReason = [], MessageID = 0, PushedAt = 20, RecCreatedAt = 20\<rparr>],
             telegram_log := [TgSendMarkdown 100 7, TgSendMarkdown 100 7]\<rparr>, None)"
  unfolding push_calls_ok_sample
  by (simp add: sample_world_def sample_video_def PushVideoToChat_def HasPushed_def
      count_success_def chat_ok_def chat_history_fails_def chat_record_fails_def log_call_def
      RecordPush_def next_id_def PushStatusFailed_def PushStatusSuccess_def runes_def)

text \<open>
  Claim C2, amended. For every pair of a video id and a chat id and every run of calls of
  \<open>PushVideoToChat\<close> for the pair, whatever the collaborators answer: a store with at
  most one SUCCESS record of the pair has at most one after the run (a store with none to
  begin with, in particular). Once a SUCCESS record of the pair exists, every further call
  leaves the store and the Telegram log as they are (no new push record, nothing sent),
  and it returns nil exactly when its history query does, the error of that query
  otherwise. On a store with no SUCCESS record of the pair, a call that returns nil leaves
  one exactly when the insert of its push record succeeds, and then the rest of the run
  changes nothing; a call that returns an error leaves the number of SUCCESS records as it
  was.
\<close>

theorem push_at_most_one_success:
  "(count_success w (ID video) chatID \<le> 1
      \<longrightarrow> count_success (push_calls outs w video chatID) (ID video) chatID \<le> 1)
   \<and> (0 < count_success w (ID video) chatID
      \<longrightarrow> push_calls outs w video chatID = w
          \<and> PushVideoToChat out w video chatID
              = (w, case hasPushedErr out of
                      None \<Rightarrow> None
                    | Some e \<Rightarrow> Some (''failed to check push history: ''
                                       @ ''failed to check push status: '' @ e)))
   \<and> (count_success w (ID video) chatID = 0
        \<and> snd (PushVideoToChat out w video chatID) = None
      \<longrightarrow> count_success (fst (PushVideoToChat out w video chatID)) (ID video) chatID
            = (if recordPushErr out = None then 1 else 0)
          \<and> (recordPushErr out = None
               \<longrightarrow> push_calls (out # outs) w video chatID
                    = fst (PushVideoToChat out w video chatID)))
   \<and> (snd (PushVideoToChat out w video chatID) \<noteq> None
      \<longrightarrow> count_success (fst (PushVideoToChat out w video chatID)) (ID video) chatID
            = count_success w (ID video) chatID)"
proof (intro conjI impI)
  assume "count_success w (ID video) chatID \<le> 1"
  then show "count_success (push_calls outs w video chatID) (ID video) chatID \<le> 1"
    by (rule push_calls_keeps_bound)
next
  assume "0 < count_success w (ID video) chatID"
  then show "push_calls outs w video chatID = w"
    by (rule push_calls_noop)
next
  assume "0 < count_success w (ID video) chatID"
  then show "PushVideoToChat out w video chatID
              = (w, case hasPushedErr out of
                      None \<Rightarrow> None
                    | Some e \<Rightarrow> Some (''failed to check push history: ''
                                       @ ''failed to check push status: '' @ e))"
    by (rule PushVideoToChat_noop)
next
  assume "count_success w (ID video) chatID = 0
            \<and> snd (PushVideoToChat out w video chatID) = None"
  then show "count_success (fst (PushVideoToChat out w video chatID)) (ID video) chatID
            = (if recordPushErr out = None then 1 else 0)"
    by (simp only: PushVideoToChat_first_success)
next
  assume "count_success w (ID video) chatID = 0
            \<and> snd (PushVideoToChat out w video chatID) = None"
    and "recordPushErr out = None"
  then show "push_calls (out # outs) w video chatID = fst (PushVideoToChat out w video chatID)"
    by (simp only: push_calls_after_recorded_success)
next
  assume "snd (PushVideoToChat out w video chatID) \<noteq> None"
  then show "count_success (fst (PushVideoToChat out w video chatID)) (ID video) chatID
            = count_success w (ID video) chatID"
    by (rule PushVideoToChat_error_no_success)
qed

lemma push_calls_sample:
  "push_calls [chat_send_fails, chat_ok] sample_world sample_video 100
     = sample_world
         \<lparr>push_records :=
            [\<lparr>RecID = 1, VideoID = 7, RecChatID = 100, Status = PushStatusFailed,
              FailReason = runes ''Forbidden: bot was blocked by the user'',
              MessageID = 0, PushedAt = 20, RecCreatedAt = 20\<rparr>,
             \<lparr>RecID = 2, VideoID = 7, RecChatID = 100, Status = PushStatusSuccess,
              FailReason = [], MessageID = 0, PushedAt = 20, RecCreatedAt = 20\<rparr>],
          telegram_log := [TgSendMarkdown 100 7, TgSendMarkdown 100 7]\<rparr>"
  by (simp add: sample_world_def sample_video_def PushVideoToChat_def HasPushed_def
      count_success_def chat_send_fails_def chat_ok_def log_call_def RecordPush_def next_id_def
      PushStatusFailed_def PushStatusSuccess_def runes_def)

theorem push_at_most_one_success_witness:
  "count_success sample_world (ID sample_video) 100 = 0
   \<and> count_success (push_calls [chat_send_fails, chat_ok] sample_world sample_video 100)
        (ID sample_video) 100 = 1
   \<and> count_success
        (push_calls [chat_send_fails, chat_ok, chat_ok, chat_send_fails, chat_ok]
           sample_world sample_video 100) (ID sample_video) 100 = 1
   \<and> PushVideoToChat chat_ok
        (push_calls [chat_send_fails, chat_ok] sample_world sample_video 100) sample_video 100
       = (push_calls [chat_send_fails, chat_ok] sample_world sample_video 100, None)
   \<and> PushVideoToChat chat_history_fails
        (push_calls [chat_send_fails, chat_ok] sample_world sample_video 100) sample_video 100
       = (push_calls [chat_send_fails, chat_ok] sample_world sample_video 100,
          Some ''failed to check push history: failed to check push status: connection lost'')
   \<and> snd (PushVideoToChat chat_ok sample_world sample_video 100) = None
   \<and> count_success (fst (PushVideoToChat chat_ok sample_world sample_video 100))
        (ID sample_video) 100 = 1
   \<and> push_calls [chat_ok, chat_send_fails, chat_history_fails, chat_ok]
        sample_world sample_video 100
       = fst (PushVideoToChat chat_ok sample_world sample_video 100)
   \<and> snd (PushVideoToChat chat_record_fails sample_world sample_video 100) = None
   \<and> count_success (fst (PushVideoToChat chat_record_fails sample_world sample_video 100))
        (ID sample_video) 100 = 0
   \<and> snd (PushVideoToChat chat_send_fails sample_world sample_video 100)
       = Some ''Forbidden: bot was blocked by the user''
   \<and> count_success (fst (PushVideoToChat chat_send_fails sample_world sample_video 100))
        (ID sample_video) 100 = 0"
proof -
  let ?w = "push_calls [chat_send_fails, chat_ok] sample_world sample_video 100"
  have c0: "count_success sample_world (ID sample_video) 100 = 0"
    by (simp add: count_success_def sample_world_def)
  have c1: "count_success ?w (ID sample_video) 100 = 1"
    unfolding push_calls_sample
    by (simp add: count_success_def sample_world_def sample_video_def PushStatusFailed_def
        PushStatusSuccess_def runes_def)
  then have pos: "0 < count_success ?w (ID sample_video) 100"
    by (simp only: zero_less_one)
  have more: "push_calls [chat_send_fails, chat_ok, chat_ok, chat_send_fails, chat_ok]
                sample_world sample_video 100
              = push_calls [chat_ok, chat_send_fails, chat_ok] ?w sample_video 100"
    by (simp only: push_calls.simps)
  have h: "hasPushedErr chat_ok = None" "hasPushedErr chat_history_fails = Some ''connection lost''"
    "recordPushErr chat_ok = None" "recordPushErr chat_record_fails = Some ''connection lost''"
    by (simp_all add: chat_ok_def chat_history_fails_def chat_record_fails_def)
  have ret: "snd (PushVideoToChat chat_ok sample_world sample_video 100) = None"
    "snd (PushVideoToChat chat_record_fails sample_world sample_video 100) = None"
    "snd (PushVideoToChat chat_send_fails sample_world sample_video 100)
       = Some ''Forbidden: bot was blocked by the user''"
    by (simp_all add: sample_world_def sample_video_def PushVideoToChat_def HasPushed_def
        count_success_def chat_ok_def chat_record_fails_def chat_send_fails_def log_call_def
        RecordPush_def)
  note t1 = push_at_most_one_success
    [of ?w sample_video 100 "[chat_ok, chat_send_fails, chat_ok]" chat_ok]
  note t2 = push_at_most_one_success
    [of ?w sample_video 100 "[chat_ok, chat_send_fails, chat_ok]" chat_history_fails]
  note t3 = push_at_most_one_success
    [of sample_world sample_video 100 "[chat_send_fails, chat_history_fails, chat_ok]" chat_ok]
  note t4 = push_at_most_one_success
    [of sample_world sample_video 100 "[]" chat_record_fails]
  note t5 = push_at_most_one_success
    [of sample_world sample_video 100 "[]" chat_send_fails]
  from t1 pos
  have n: "push_calls [chat_ok, chat_send_fails, chat_ok] ?w sample_video 100 = ?w"
    and p0: "PushVideoToChat chat_ok ?w sample_video 100
              = (?w, case hasPushedErr chat_ok of None \<Rightarrow> None
                     | Some e \<Rightarrow> Some (''failed to check push history: ''
                                        @ ''failed to check push status: '' @ e))"
    by blast+
  from p0 have p: "PushVideoToChat chat_ok ?w sample_video 100 = (?w, None)"
    unfolding h by simp
  from t2 pos
  have "PushVideoToChat chat_history_fails ?w sample_video 100
              = (?w, case hasPushedErr chat_history_fails of None \<Rightarrow> None
                     | Some e \<Rightarrow> Some (''failed to check push history: ''
                                        @ ''failed to check push status: '' @ e))"
    by blast
  then have q: "PushVideoToChat chat_history_fails ?w sample_video 100
       = (?w, Some ''failed to check push history: failed to check push status: connection lost'')"
    unfolding h by simp
  from t3 c0 ret(1) h(3)
  have "count_success (fst (PushVideoToChat chat_ok sample_world sample_video 100))
          (ID sample_video) 100 = (if recordPushErr chat_ok = None then 1 else 0)"
    and run: "push_calls (chat_ok # [chat_send_fails, chat_history_fails, chat_ok])
               sample_world sample_video 100
             = fst (PushVideoToChat chat_ok sample_world sample_video 100)"
    by blast+
  then have f1: "count_success (fst (PushVideoToChat chat_ok sample_world sample_video 100))
          (ID sample_video) 100 = 1"
    unfolding h by simp
  from t4 c0 ret(2)
  have "count_success (fst (PushVideoToChat chat_record_fails sample_world sample_video 100))
          (ID sample_video) 100 = (if recordPushErr chat_record_fails = None then 1 else 0)"
    by blast
  then have f2: "count_success (fst (PushVideoToChat chat_record_fails sample_world sample_video 100))
          (ID sample_video) 100 = 0"
    unfolding h by simp
  from ret(3) have "snd (PushVideoToChat chat_send_fails sample_world sample_video 100) \<noteq> None"
    by simp
  with t5 have "count_success (fst (PushVideoToChat chat_send_fails sample_world sample_video 100))
          (ID sample_video) 100 = count_success sample_world (ID sample_video) 100"
    by blast
  then have f3: "count_success (fst (PushVideoToChat chat_send_fails sample_world sample_video 100))
          (ID sample_video) 100 = 0"
    unfolding c0 .
  show ?thesis
    unfolding more n using c0 c1 p q ret f1 run f2 f3 by (simp only: simp_thms)
qed

section \<open>Properties of saving videos\<close>

lemma insert_ignore_code_present:
  "Code v \<in> set (map Code (videos (insert_ignore now v w)))"
  by (simp add: insert_ignore_def)

lemma insert_ignore_distinct:
  "distinct (map Code (videos w)) \<Longrightarrow> distinct (map Code (videos (insert_ignore now v w)))"
  by (simp add: insert_ignore_def)

lemma rows_of_code_length:
  assumes "distinct (map Code (videos w))"
  shows "length (rows_of_code w code) = (if code \<in> set (map Code (videos w)) then 1 else 0)"
proof -
  have "distinct (map Code rows) \<Longrightarrow>
        length (filter (\<lambda>r. Code r = code) rows) = (if code \<in> set (map Code rows) then 1 else 0)"
    for rows :: "Video list"
    by (induction rows) (auto simp: filter_empty_conv)
  with assms show ?thesis by (simp add: rows_of_code_def)
qed

lemma SaveVideo_present:
  "Code video \<in> set (map Code (videos w)) \<Longrightarrow> fst (SaveVideo dbErr now w video) = w"
  by (simp add: SaveVideo_def insert_ignore_def split: option.splits)

lemma SaveVideo_ok_code_present:
  "Code video \<in> set (map Code (videos (fst (SaveVideo None now w video))))"
  using insert_ignore_code_present [of "video\<lparr>Pushed := False\<rparr>" now w]
  by (simp add: SaveVideo_def)

lemma SaveVideo_distinct:
  "distinct (map Code (videos w)) \<Longrightarrow>
   distinct (map Code (videos (fst (SaveVideo dbErr now w video))))"
  using insert_ignore_distinct [of w now "video\<lparr>Pushed := False\<rparr>"]
  by (simp add: SaveVideo_def split: option.splits)

lemma save_calls_present:
  "Code video \<in> set (map Code (videos w)) \<Longrightarrow> save_calls outs w video = w"
  by (induction outs) (auto simp: SaveVideo_present)

lemma SaveVideo_new_row:
  assumes "Code video \<notin> set (map Code (videos w))"
  shows "rows_of_code (fst (SaveVideo None now w video)) (Code video)
           = [video\<lparr>Pushed := False, ID := next_id (map ID (videos w)),
                    CreatedAt := now, UpdatedAt := now\<rparr>]"
proof -
  from assms have "\<forall>r \<in> set (videos w). Code r \<noteq> Code video"
    by (metis image_eqI set_map)
  then have "filter (\<lambda>r. Code r = Code video) (videos w) = []"
    by (simp add: filter_empty_conv)
  with assms show ?thesis
    by (simp add: rows_of_code_def SaveVideo_def insert_ignore_def)
qed

lemma save_calls_first:
  "save_calls ((None, now) # outs) w video = fst (SaveVideo None now w video)"
  using save_calls_present [OF SaveVideo_ok_code_present, of outs now w video]
  by simp

lemma save_calls_one_row:
  assumes "distinct (map Code (videos w))" "outs \<noteq> []" "list_all (\<lambda>out. fst out = None) outs"
  shows "length (rows_of_code (save_calls outs w video) (Code video)) = 1"
proof -
  from assms(2,3) obtain now rest where outs: "outs = (None, now) # rest"
    by (cases outs) auto
  let ?w = "fst (SaveVideo None now w video)"
  have "distinct (map Code (videos ?w))"
    using assms(1) by (rule SaveVideo_distinct)
  then have "length (rows_of_code ?w (Code video)) = 1"
    using SaveVideo_ok_code_present [of video now w] by (simp add: rows_of_code_length)
  then show ?thesis
    unfolding outs save_calls_first .
qed

lemma flags_kept_refl: "flags_kept rows rows"
  by (simp add: flags_kept_def list_all2_same)

lemma flags_kept_trans:
  assumes "flags_kept a b" "flags_kept b c"
  shows "flags_kept a c"
proof -
  from assms have len: "length a \<le> length b" "length b \<le> length c"
    by (simp_all add: flags_kept_def)
  have "ID (c ! i) = ID (a ! i) \<and> Code (c ! i) = Code (a ! i)
        \<and> (Pushed (a ! i) \<longrightarrow> Pushed (c ! i))"
    if "i < length a" for i
  proof -
    from that len have i: "i < length b" "i < length c" by simp_all
    from assms(1) that
    have "ID (b ! i) = ID (a ! i) \<and> Code (b ! i) = Code (a ! i)
          \<and> (Pushed (a ! i) \<longrightarrow> Pushed (b ! i))"
      by (auto simp: flags_kept_def list_all2_conv_all_nth)
    moreover from assms(2) i
    have "ID (c ! i) = ID (b ! i) \<and> Code (c ! i) = Code (b ! i)
          \<and> (Pushed (b ! i) \<longrightarrow> Pushed (c ! i))"
      by (auto simp: flags_kept_def list_all2_conv_all_nth)
    ultimately show ?thesis by simp
  qed
  with len show ?thesis
    by (simp add: flags_kept_def list_all2_conv_all_nth)
qed

lemma flags_kept_append: "flags_kept rows (rows @ new_rows)"
  by (simp add: flags_kept_def list_all2_same)

lemma insert_ignore_flags: "flags_kept (videos w) (videos (insert_ignore now v w))"
  by (simp add: insert_ignore_def flags_kept_refl flags_kept_append)

lemma fold_insert_ignore_flags:
  "flags_kept (videos w) (videos (fold (insert_ignore now) vs w))"
proof (induction vs arbitrary: w)
  case Nil
  then show ?case by (simp add: flags_kept_refl)
next
  case (Cons v vs)
  from insert_ignore_flags [of w now v] Cons.IH [of "insert_ignore now v w"]
  show ?case by (auto intro: flags_kept_trans)
qed

lemma SaveVideo_flags: "flags_kept (videos w) (videos (fst (SaveVideo dbErr now w v)))"
  by (simp add: SaveVideo_def insert_ignore_flags flags_kept_refl split: option.splits)

lemma SaveVideos_flags: "flags_kept (videos w) (videos (fst (SaveVideos dbErr now w vs)))"
  by (simp add: SaveVideos_def Let_def fold_insert_ignore_flags flags_kept_refl
      split: option.splits)

lemma MarkAsPushed_flags:
  "flags_kept (videos w) (videos (fst (MarkAsPushed dbErr now w videoID)))"
  by (simp add: MarkAsPushed_def flags_kept_refl flags_kept_def list_all2_conv_all_nth
      split: option.splits)

lemma apply_write_flags: "flags_kept (videos w) (videos (apply_write dbErr now w op))"
  by (cases op) (simp_all add: SaveVideo_flags SaveVideos_flags MarkAsPushed_flags)

lemma apply_writes_flags: "flags_kept (videos w) (videos (apply_writes ops w))"
proof (induction ops arbitrary: w)
  case Nil
  then show ?case by (simp add: flags_kept_refl)
next
  case (Cons a ops)
  obtain dbErr now op where a: "a = (dbErr, now, op)" by (cases a)
  from apply_write_flags [of w dbErr now op] Cons.IH [of "apply_write dbErr now w op"]
  show ?case unfolding a by (auto intro: flags_kept_trans)
qed

lemma fold_insert_ignore_all_present:
  assumes "set (map Code vs) \<subseteq> set (map Code (videos w))"
  shows "fold (insert_ignore now) vs w = w"
  using assms by (induction vs) (simp_all add: insert_ignore_def)

lemma SaveVideos_all_duplicates:
  assumes "vs \<noteq> []" "set (map Code vs) \<subseteq> set (map Code (videos w))"
  shows "SaveVideos None now w vs = (w, 0, int (length vs), None)"
proof -
  from assms(2) have "fold (insert_ignore now) (map (\<lambda>v. v\<lparr>Pushed := False\<rparr>) vs) w = w"
    by (intro fold_insert_ignore_all_present) (simp add: image_subset_iff)
  with assms(1) show ?thesis by (simp add: SaveVideos_def)
qed

lemma SaveVideos_replicate:
  assumes "Code video \<notin> set (map Code (videos w))"
  shows "SaveVideos None now w (replicate (Suc n) video)
           = (fst (SaveVideo None now w video), 1, int n, None)"
proof -
  let ?v = "video\<lparr>Pushed := False\<rparr>"
  have "fold (insert_ignore now) (replicate n ?v) (insert_ignore now ?v w)
          = insert_ignore now ?v w"
    by (intro fold_insert_ignore_all_present) (auto simp: insert_ignore_def)
  moreover from assms
  have "length (videos (insert_ignore now ?v w)) = Suc (length (videos w))"
    by (simp add: insert_ignore_def)
  ultimately show ?thesis
    by (simp add: SaveVideos_def SaveVideo_def)
qed

lemma insert_ignore_codes:
  "set (map Code (videos (insert_ignore now v w))) = insert (Code v) (set (map Code (videos w)))"
  by (auto simp: insert_ignore_def)

lemma fold_insert_ignore_codes:
  "set (map Code (videos (fold (insert_ignore now) vs w)))
     = set (map Code (videos w)) \<union> set (map Code vs)"
proof (induction vs arbitrary: w)
  case Nil
  then show ?case by simp
next
  case (Cons v vs)
  show ?case
    unfolding fold_simps Cons.IH insert_ignore_codes by auto
qed

lemma fold_insert_ignore_distinct:
  "distinct (map Code (videos w)) \<Longrightarrow> distinct (map Code (videos (fold (insert_ignore now) vs w)))"
  by (induction vs arbitrary: w) (simp_all add: insert_ignore_distinct)

lemma map_Code_unflag: "map Code (map (\<lambda>v. v\<lparr>Pushed := False\<rparr>) vs) = map Code vs"
  by (simp add: comp_def)

lemma SaveVideos_codes:
  "set (map Code (videos (fst (SaveVideos None now w vs))))
     = set (map Code (videos w)) \<union> set (map Code vs)"
proof (cases "vs = []")
  case True
  then show ?thesis by (simp add: SaveVideos_def)
next
  case False
  then have "fst (SaveVideos None now w vs)
               = fold (insert_ignore now) (map (\<lambda>v. v\<lparr>Pushed := False\<rparr>) vs) w"
    by (simp add: SaveVideos_def Let_def)
  then show ?thesis
    by (simp only: fold_insert_ignore_codes map_Code_unflag)
qed

lemma SaveVideos_distinct:
  assumes "distinct (map Code (videos w))"
  shows "distinct (map Code (videos (fst (SaveVideos dbErr now w vs))))"
  using assms
  by (simp add: SaveVideos_def Let_def fold_insert_ignore_distinct split: option.splits)

lemma MarkAsPushed_codes:
  "map Code (videos (fst (MarkAsPushed dbErr now w videoID))) = map Code (videos w)"
  by (simp add: MarkAsPushed_def comp_def split: option.splits cong: map_cong)

lemma apply_write_distinct:
  assumes "distinct (map Code (videos w))"
  shows "distinct (map Code (videos (apply_write dbErr now w op)))"
  using assms
  by (cases op) (simp_all add: SaveVideo_distinct SaveVideos_distinct MarkAsPushed_codes)

lemma apply_writes_distinct:
  assumes "distinct (map Code (videos w))"
  shows "distinct (map Code (videos (apply_writes ops w)))"
  using assms
proof (induction ops arbitrary: w)
  case Nil
  then show ?case by simp
next
  case (Cons a ops)
  obtain dbErr now op where a: "a = (dbErr, now, op)" by (cases a)
  from Cons.prems have "distinct (map Code (videos (apply_write dbErr now w op)))"
    by (rule apply_write_distinct)
  then show ?case unfolding a by (simp add: Cons.IH)
qed

lemma flags_kept_codes:
  assumes "flags_kept rows rows'"
  shows "set (map Code rows) \<subseteq> set (map Code rows')"
proof
  fix c assume "c \<in> set (map Code rows)"
  then obtain i where i: "i < length rows" "Code (rows ! i) = c"
    by (auto simp: in_set_conv_nth)
  from assms i have "i < length rows'" "Code (rows' ! i) = c"
    by (auto simp: flags_kept_def list_all2_conv_all_nth)
  then have "rows' ! i \<in> set rows'" "Code (rows' ! i) = c"
    by simp_all
  then have "c \<in> Code ` set rows'"
    by (metis imageI)
  then show "c \<in> set (map Code rows')"
    by simp
qed

lemma apply_write_saves_code:
  assumes "saves_code code (dbErr, now, op)"
  shows "code \<in> set (map Code (videos (apply_write dbErr now w op)))"
proof (cases op)
  case (WSaveVideo v)
  with assms SaveVideo_ok_code_present [of v now w] show ?thesis by auto
next
  case (WSaveVideos vs)
  with assms SaveVideos_codes [of now w vs] show ?thesis by auto
next
  case (WMarkAsPushed videoID)
  with assms show ?thesis by simp
qed

lemma apply_writes_saves_code:
  assumes "list_ex (saves_code code) ops"
  shows "code \<in> set (map Code (videos (apply_writes ops w)))"
  using assms
proof (induction ops arbitrary: w)
  case Nil
  then show ?case by simp
next
  case (Cons a ops)
  obtain dbErr now op where a: "a = (dbErr, now, op)" by (cases a)
  show ?case
  proof (cases "saves_code code a")
    case True
    then have "code \<in> set (map Code (videos (apply_write dbErr now w op)))"
      unfolding a by (rule apply_write_saves_code)
    moreover have "set (map Code (videos (apply_write dbErr now w op)))
                     \<subseteq> set (map Code (videos (apply_writes ops (apply_write dbErr now w op))))"
      by (rule flags_kept_codes) (rule apply_writes_flags)
    ultimately show ?thesis unfolding a by auto
  next
    case False
    with Cons.prems have "list_ex (saves_code code) ops" by simp
    from Cons.IH [OF this, of "apply_write dbErr now w op"]
    show ?thesis unfolding a by (simp only: apply_writes.simps)
  qed
qed

lemma apply_writes_one_row:
  assumes "distinct (map Code (videos w))" "list_ex (saves_code code) ops"
  shows "length (rows_of_code (apply_writes ops w) code) = 1"
  using apply_writes_distinct [OF assms(1), of ops] apply_writes_saves_code [OF assms(2), of w]
  by (simp add: rows_of_code_length)

lemma insert_ignore_prefix: "prefix (videos w) (videos (insert_ignore now v w))"
  by (simp add: insert_ignore_def)

lemma fold_insert_ignore_prefix: "prefix (videos w) (videos (fold (insert_ignore now) vs w))"
proof (induction vs arbitrary: w)
  case Nil
  then show ?case by simp
next
  case (Cons v vs)
  from insert_ignore_prefix [of w now v] Cons.IH [of "insert_ignore now v w"]
  show ?case by (auto intro: prefix_order.trans)
qed

lemma SaveVideos_prefix: "prefix (videos w) (videos (fst (SaveVideos dbErr now w vs)))"
  by (simp add: SaveVideos_def Let_def fold_insert_ignore_prefix split: option.splits)

lemma SaveVideo_prefix: "prefix (videos w) (videos (fst (SaveVideo dbErr now w v)))"
  by (simp add: SaveVideo_def insert_ignore_prefix split: option.splits)

lemma fold_insert_ignore_length:
  "length (videos (fold (insert_ignore now) vs w))
     = length (videos w) + card (set (map Code vs) - set (map Code (videos w)))"
proof (induction vs arbitrary: w)
  case Nil
  then show ?case by simp
next
  case (Cons v vs)
  show ?case
  proof (cases "Code v \<in> set (map Code (videos w))")
    case True
    then have "insert_ignore now v w = w" by (simp add: insert_ignore_def)
    moreover from True
    have "set (map Code (v # vs)) - set (map Code (videos w))
            = set (map Code vs) - set (map Code (videos w))" by auto
    ultimately show ?thesis using Cons.IH [of w] by simp
  next
    case False
    then have len: "length (videos (insert_ignore now v w)) = Suc (length (videos w))"
      by (simp add: insert_ignore_def)
    have "set (map Code (v # vs)) - set (map Code (videos w))
            = insert (Code v) (set (map Code vs) - set (map Code (videos (insert_ignore now v w))))"
      using False unfolding insert_ignore_codes by auto
    moreover have "Code v \<notin> set (map Code vs) - set (map Code (videos (insert_ignore now v w)))"
      unfolding insert_ignore_codes by simp
    ultimately have "card (set (map Code (v # vs)) - set (map Code (videos w)))
            = Suc (card (set (map Code vs) - set (map Code (videos (insert_ignore now v w)))))"
      by simp
    with len Cons.IH [of "insert_ignore now v w"] show ?thesis by simp
  qed
qed

lemma SaveVideos_counts:
  "snd (SaveVideos None now w vs)
     = (int (card (set (map Code vs) - set (map Code (videos w)))),
        int (length vs) - int (card (set (map Code vs) - set (map Code (videos w)))), None)"
proof (cases "vs = []")
  case True
  then show ?thesis by (simp add: SaveVideos_def)
next
  case False
  let ?w' = "fold (insert_ignore now) (map (\<lambda>v. v\<lparr>Pushed := False\<rparr>) vs) w"
  from False have eq: "snd (SaveVideos None now w vs)
      = (int (length (videos ?w')) - int (length (videos w)),
         int (length vs) - (int (length (videos ?w')) - int (length (videos w))), None)"
    by (simp add: SaveVideos_def Let_def)
  have len: "length (videos ?w')
      = length (videos w) + card (set (map Code vs) - set (map Code (videos w)))"
    by (simp only: fold_insert_ignore_length map_Code_unflag)
  show ?thesis unfolding eq len by simp
qed

lemma fold_insert_ignore_rows_present:
  assumes "code \<in> set (map Code (videos w))"
  shows "rows_of_code (fold (insert_ignore now) vs w) code = rows_of_code w code"
  using assms
proof (induction vs arbitrary: w)
  case Nil
  then show ?case by simp
next
  case (Cons v vs)
  from Cons.prems have "rows_of_code (insert_ignore now v w) code = rows_of_code w code"
    by (auto simp: insert_ignore_def rows_of_code_def)
  moreover from Cons.prems have "code \<in> set (map Code (videos (insert_ignore now v w)))"
    unfolding insert_ignore_codes by simp
  ultimately show ?case using Cons.IH [of "insert_ignore now v w"] by simp
qed

lemma rows_of_code_absent:
  assumes "code \<notin> set (map Code (videos w))"
  shows "rows_of_code w code = []"
proof -
  from assms have "\<forall>r \<in> set (videos w). Code r \<noteq> code"
    by (metis image_eqI set_map)
  then show ?thesis by (simp add: rows_of_code_def filter_empty_conv)
qed

lemma SaveVideos_new_row:
  assumes "vs = pre @ video # post" "Code video \<notin> set (map Code pre)"
    "Code video \<notin> set (map Code (videos w))"
  shows "\<exists>k. rows_of_code (fst (SaveVideos None now w vs)) (Code video)
               = [video\<lparr>Pushed := False, ID := k, CreatedAt := now, UpdatedAt := now\<rparr>]"
proof -
  let ?u = "\<lambda>v. v\<lparr>Pushed := False\<rparr>"
  let ?w1 = "fold (insert_ignore now) (map ?u pre) w"
  let ?w2 = "insert_ignore now (?u video) ?w1"
  have absent: "Code video \<notin> set (map Code (videos ?w1))"
    using assms(2,3) unfolding fold_insert_ignore_codes map_Code_unflag by simp
  then have r1: "rows_of_code ?w1 (Code video) = []"
    by (rule rows_of_code_absent)
  from absent have w2: "videos ?w2 = videos ?w1 @
      [video\<lparr>Pushed := False, ID := next_id (map ID (videos ?w1)), CreatedAt := now,
              UpdatedAt := now\<rparr>]"
    by (simp add: insert_ignore_def)
  have r2: "rows_of_code ?w2 (Code video)
              = [video\<lparr>Pushed := False, ID := next_id (map ID (videos ?w1)), CreatedAt := now,
                       UpdatedAt := now\<rparr>]"
    using r1 unfolding rows_of_code_def w2 by simp
  have present: "Code video \<in> set (map Code (videos ?w2))"
    unfolding insert_ignore_codes by simp
  have "fst (SaveVideos None now w vs) = fold (insert_ignore now) (map ?u post) ?w2"
    unfolding assms(1) by (simp add: SaveVideos_def Let_def)
  then have "rows_of_code (fst (SaveVideos None now w vs)) (Code video)
               = rows_of_code ?w2 (Code video)"
    using fold_insert_ignore_rows_present [OF present] by simp
  with r2 have "rows_of_code (fst (SaveVideos None now w vs)) (Code video)
               = [video\<lparr>Pushed := False, ID := next_id (map ID (videos ?w1)), CreatedAt := now,
                        UpdatedAt := now\<rparr>]"
    by simp
  then show ?thesis by (rule exI)
qed

lemma apply_writes_saves_prefix:
  assumes "list_all is_save ops"
  shows "prefix (videos w) (videos (apply_writes ops w))"
  using assms
proof (induction ops arbitrary: w)
  case Nil
  then show ?case by simp
next
  case (Cons a ops)
  obtain dbErr now op where a: "a = (dbErr, now, op)" by (cases a)
  from Cons.prems have "is_save (dbErr, now, op)" "list_all is_save ops"
    unfolding a by simp_all
  from this(1) have "prefix (videos w) (videos (apply_write dbErr now w op))"
    by (cases op) (simp_all add: SaveVideo_prefix SaveVideos_prefix)
  moreover from Cons.IH [OF \<open>list_all is_save ops\<close>, of "apply_write dbErr now w op"]
  have "prefix (videos (apply_write dbErr now w op))
          (videos (apply_writes ops (apply_write dbErr now w op)))" .
  ultimately show ?case unfolding a by (auto intro: prefix_order.trans)
qed

lemma apply_writes_saves_keep_row:
  assumes "list_all is_save ops" "distinct (map Code (videos w))"
    "code \<in> set (map Code (videos w))"
  shows "rows_of_code (apply_writes ops w) code = rows_of_code w code"
proof -
  from apply_writes_saves_prefix [OF assms(1), of w]
  obtain extra where e: "videos (apply_writes ops w) = videos w @ extra"
    by (auto simp: prefix_def)
  from apply_writes_distinct [OF assms(2), of ops]
  have "distinct (map Code (videos w) @ map Code extra)"
    unfolding e by simp
  with assms(3) have "code \<notin> set (map Code extra)"
    by auto
  then have "\<forall>r \<in> set extra. Code r \<noteq> code"
    by (metis image_eqI set_map)
  then have "filter (\<lambda>r. Code r = code) extra = []"
    by (simp add: filter_empty_conv)
  then show ?thesis
    unfolding rows_of_code_def e by simp
qed

text \<open>
  Claim C9. The table \<open>videos\<close> has a unique index on \<open>code\<close>. For every video and
  every run of writes of the store (\<open>SaveVideo\<close>, \<open>SaveVideos\<close> with any batch,
  \<open>MarkAsPushed\<close>, with any outcomes) in which the database executes at least one save
  of the video, alone or in a batch with other videos, the table holds exactly one row of
  its code after the run. A batch in which the video is the first of its code, the code
  being new, creates that row with \<open>Pushed = False\<close> whatever the draft said.
  \<open>SaveVideos\<close> reports as saved the number of distinct new codes of its batch and as
  duplicates the rest of the batch. No save changes a row that exists: the table before
  is a prefix of the table after, and over a run of saves the row of a code that is
  present stays as it is. The same holds of \<open>N \<ge> 1\<close> calls of \<open>SaveVideo\<close> and of a
  batch of \<open>N\<close> copies. Over every run of writes, every row keeps its key and code, and
  a row whose flag is true keeps it true.
\<close>

theorem save_once_flag_never_reset:
  "(distinct (map Code (videos w)) \<and> list_ex (saves_code (Code video)) ops
      \<longrightarrow> length (rows_of_code (apply_writes ops w) (Code video)) = 1)
   \<and> (vs = pre @ video # post \<and> Code video \<notin> set (map Code pre)
        \<and> Code video \<notin> set (map Code (videos w))
      \<longrightarrow> (\<exists>k. rows_of_code (fst (SaveVideos None now w vs)) (Code video)
                  = [video\<lparr>Pushed := False, ID := k, CreatedAt := now, UpdatedAt := now\<rparr>]))
   \<and> snd (SaveVideos None now w vs)
       = (int (card (set (map Code vs) - set (map Code (videos w)))),
          int (length vs) - int (card (set (map Code vs) - set (map Code (videos w)))), None)
   \<and> prefix (videos w) (videos (fst (SaveVideos dbErr now w vs)))
   \<and> prefix (videos w) (videos (fst (SaveVideo dbErr now w video)))
   \<and> (list_all is_save ops \<and> distinct (map Code (videos w))
        \<and> Code video \<in> set (map Code (videos w))
      \<longrightarrow> rows_of_code (apply_writes ops w) (Code video) = rows_of_code w (Code video))
   \<and> (distinct (map Code (videos w)) \<and> outs \<noteq> [] \<and> list_all (\<lambda>out. fst out = None) outs
      \<longrightarrow> length (rows_of_code (save_calls outs w video) (Code video)) = 1)
   \<and> (Code video \<notin> set (map Code (videos w))
      \<longrightarrow> rows_of_code (save_calls ((None, now) # outs) w video) (Code video)
            = [video\<lparr>Pushed := False, ID := next_id (map ID (videos w)),
                     CreatedAt := now, UpdatedAt := now\<rparr>]
          \<and> SaveVideos None now w (replicate (Suc n) video)
            = (fst (SaveVideo None now w video), 1, int n, None))
   \<and> (Code video \<in> set (map Code (videos w))
      \<longrightarrow> fst (SaveVideo dbErr now w video) = w \<and> save_calls outs w video = w)
   \<and> (vs \<noteq> [] \<and> set (map Code vs) \<subseteq> set (map Code (videos w))
      \<longrightarrow> SaveVideos None now w vs = (w, 0, int (length vs), None))
   \<and> flags_kept (videos w) (videos (apply_writes ops w))"
proof -
  have old: "(distinct (map Code (videos w)) \<and> outs \<noteq> [] \<and> list_all (\<lambda>out. fst out = None) outs
      \<longrightarrow> length (rows_of_code (save_calls outs w video) (Code video)) = 1)
   \<and> (Code video \<notin> set (map Code (videos w))
      \<longrightarrow> rows_of_code (save_calls ((None, now) # outs) w video) (Code video)
            = [video\<lparr>Pushed := False, ID := next_id (map ID (videos w)),
                     CreatedAt := now, UpdatedAt := now\<rparr>]
          \<and> SaveVideos None now w (replicate (Suc n) video)
            = (fst (SaveVideo None now w video), 1, int n, None))
   \<and> (Code video \<in> set (map Code (videos w))
      \<longrightarrow> fst (SaveVideo dbErr now w video) = w \<and> save_calls outs w video = w)
   \<and> (vs \<noteq> [] \<and> set (map Code vs) \<subseteq> set (map Code (videos w))
      \<longrightarrow> SaveVideos None now w vs = (w, 0, int (length vs), None))
   \<and> flags_kept (videos w) (videos (apply_writes ops w))"
    using save_calls_one_row [of w outs video] SaveVideo_new_row [of video w now]
      save_calls_first [of now outs w video] SaveVideos_replicate [of video w now n]
      SaveVideo_present [of video w dbErr now] save_calls_present [of video w outs]
      SaveVideos_all_duplicates [of vs w now] apply_writes_flags [of w ops]
    by simp
  have g1: "distinct (map Code (videos w)) \<and> list_ex (saves_code (Code video)) ops
      \<longrightarrow> length (rows_of_code (apply_writes ops w) (Code video)) = 1"
    using apply_writes_one_row [of w "Code video" ops] by blast
  have g2: "vs = pre @ video # post \<and> Code video \<notin> set (map Code pre)
        \<and> Code video \<notin> set (map Code (videos w))
      \<longrightarrow> (\<exists>k. rows_of_code (fst (SaveVideos None now w vs)) (Code video)
                  = [video\<lparr>Pushed := False, ID := k, CreatedAt := now, UpdatedAt := now\<rparr>])"
    using SaveVideos_new_row [of vs pre video post w now] by blast
  have g3: "list_all is_save ops \<and> distinct (map Code (videos w))
        \<and> Code video \<in> set (map Code (videos w))
      \<longrightarrow> rows_of_code (apply_writes ops w) (Code video) = rows_of_code w (Code video)"
    using apply_writes_saves_keep_row [of ops w "Code video"] by blast
  from g1 g2 g3 SaveVideos_counts [of now w vs] SaveVideos_prefix [of w dbErr now vs]
    SaveVideo_prefix [of w dbErr now video] old
  show ?thesis by blast
qed

lemma sample_codes:
  "Code sample_video = runes ''SSIS-001''" "Code sample_new_video = runes ''ABP-123''"
  "Code sample_third_video = runes ''IPX-777''"
  "runes ''SSIS-001'' \<noteq> runes ''ABP-123''" "runes ''SSIS-001'' \<noteq> runes ''IPX-777''"
  "runes ''ABP-123'' \<noteq> runes ''IPX-777''" "runes ''ABP-123'' \<noteq> runes ''SSIS-001''"
  "runes ''IPX-777'' \<noteq> runes ''SSIS-001''" "runes ''IPX-777'' \<noteq> runes ''ABP-123''"
  by (simp_all add: sample_video_def sample_new_video_def sample_third_video_def runes_def)

lemma sample_batch_result:
  "fst (SaveVideos None 40 sample_world [sample_video, sample_new_video, sample_third_video])
     = sample_world\<lparr>videos :=
         [sample_video,
          sample_new_video\<lparr>Pushed := False, ID := 8, CreatedAt := 40, UpdatedAt := 40\<rparr>,
          sample_third_video\<lparr>Pushed := False, ID := 9, CreatedAt := 40, UpdatedAt := 40\<rparr>]\<rparr>"
  by (simp add: SaveVideos_def insert_ignore_def sample_world_def sample_codes next_id_def)
    (simp add: sample_video_def sample_new_video_def sample_third_video_def)

lemma sample_writes_result:
  "videos (apply_writes sample_writes sample_world)
     = [sample_video,
        sample_new_video\<lparr>Pushed := True, ID := 8, CreatedAt := 40, UpdatedAt := 43\<rparr>,
        sample_third_video\<lparr>Pushed := False, ID := 9, CreatedAt := 40, UpdatedAt := 40\<rparr>]"
  unfolding sample_writes_def apply_writes.simps apply_write.simps sample_batch_result
  by (simp add: SaveVideos_def SaveVideo_def MarkAsPushed_def insert_ignore_def sample_world_def
      sample_codes)
    (simp add: sample_video_def sample_new_video_def sample_third_video_def)

theorem save_once_flag_never_reset_witness:
  "distinct (map Code (videos sample_world))
   \<and> list_ex (saves_code (Code sample_new_video)) sample_writes
   \<and> rows_of_code (apply_writes sample_writes sample_world) (Code sample_new_video)
       = [sample_new_video\<lparr>Pushed := True, ID := 8, CreatedAt := 40, UpdatedAt := 43\<rparr>]
   \<and> Code sample_new_video \<notin> set (map Code (videos sample_world))
   \<and> rows_of_code
       (fst (SaveVideos None 40 sample_world [sample_video, sample_new_video, sample_third_video]))
       (Code sample_new_video)
       = [sample_new_video\<lparr>Pushed := False, ID := 8, CreatedAt := 40, UpdatedAt := 40\<rparr>]
   \<and> snd (SaveVideos None 40 sample_world [sample_video, sample_new_video, sample_third_video])
       = (2, 1, None)
   \<and> rows_of_code
       (apply_writes [(None, 50, WSaveVideos [sample_third_video, sample_video]),
                      (None, 51, WSaveVideo sample_video)] sample_world) (Code sample_video)
       = [sample_video]
   \<and> rows_of_code
       (save_calls [(None, 40), (None, 41), (Some ''connection lost'', 42), (None, 43)]
          sample_world sample_new_video) (Code sample_new_video)
       = [sample_new_video\<lparr>Pushed := False, ID := 8, CreatedAt := 40, UpdatedAt := 40\<rparr>]
   \<and> SaveVideos None 40 sample_world (replicate 3 sample_new_video)
       = (fst (SaveVideo None 40 sample_world sample_new_video), 1, 2, None)
   \<and> SaveVideos None 50 sample_world [sample_video, sample_video]
       = (sample_world, 0, 2, None)
   \<and> flags_kept (videos sample_world) (videos (apply_writes sample_writes sample_world))"
proof -
  let ?batch = "[sample_video, sample_new_video, sample_third_video]"
  let ?dups = "[(None, 50, WSaveVideos [sample_third_video, sample_video]),
                (None, 51, WSaveVideo sample_video)]"
  have d: "distinct (map Code (videos sample_world))"
    by (simp add: sample_world_def)
  have s: "list_ex (saves_code (Code sample_new_video)) sample_writes"
    by (simp add: sample_writes_def)
  have new: "Code sample_new_video \<notin> set (map Code (videos sample_world))"
    by (simp add: sample_world_def sample_codes)
  have present: "Code sample_video \<in> set (map Code (videos sample_world))"
    by (simp add: sample_world_def)
  have split: "?batch = [sample_video] @ sample_new_video # [sample_third_video]
               \<and> Code sample_new_video \<notin> set (map Code [sample_video])"
    by (simp add: sample_codes)
  have saves: "list_all is_save ?dups"
    by simp
  have old: "[sample_video, sample_video] \<noteq> []
             \<and> set (map Code [sample_video, sample_video]) \<subseteq> set (map Code (videos sample_world))"
    by (simp add: sample_world_def)
  have idn: "next_id (map ID (videos sample_world)) = 8"
    by (simp add: next_id_def sample_world_def sample_video_def)
  have cnt: "card (set (map Code ?batch) - set (map Code (videos sample_world))) = 2"
    by (simp add: sample_world_def sample_codes)
  have row0: "rows_of_code sample_world (Code sample_video) = [sample_video]"
    by (simp add: rows_of_code_def sample_world_def)
  note t1 = save_once_flag_never_reset
    [where w = sample_world and video = sample_new_video and ops = sample_writes
       and vs = ?batch and pre = "[sample_video]" and post = "[sample_third_video]"
       and now = 40 and dbErr = None
       and outs = "[(None, 41), (Some ''connection lost'', 42), (None, 43)]" and n = 2]
  note t2 = save_once_flag_never_reset
    [where w = sample_world and video = sample_video and ops = ?dups
       and vs = "[sample_video, sample_video]" and now = 50 and dbErr = None and outs = "[]"]
  from t1 d s have one: "length (rows_of_code (apply_writes sample_writes sample_world)
                            (Code sample_new_video)) = 1"
    by blast
  have r1: "rows_of_code (apply_writes sample_writes sample_world) (Code sample_new_video)
       = [sample_new_video\<lparr>Pushed := True, ID := 8, CreatedAt := 40, UpdatedAt := 43\<rparr>]"
    using one unfolding rows_of_code_def sample_writes_result
    by (simp add: sample_codes)
  from t1 split new
  have "\<exists>k. rows_of_code (fst (SaveVideos None 40 sample_world ?batch)) (Code sample_new_video)
              = [sample_new_video\<lparr>Pushed := False, ID := k, CreatedAt := 40, UpdatedAt := 40\<rparr>]"
    by blast
  then have r2: "rows_of_code (fst (SaveVideos None 40 sample_world ?batch)) (Code sample_new_video)
       = [sample_new_video\<lparr>Pushed := False, ID := 8, CreatedAt := 40, UpdatedAt := 40\<rparr>]"
    unfolding sample_batch_result rows_of_code_def by (simp add: sample_codes)
  from t1 have "snd (SaveVideos None 40 sample_world ?batch)
       = (int (card (set (map Code ?batch) - set (map Code (videos sample_world)))),
          int (length ?batch) - int (card (set (map Code ?batch) - set (map Code (videos sample_world)))),
          None)"
    by blast
  then have r3: "snd (SaveVideos None 40 sample_world ?batch) = (2, 1, None)"
    unfolding cnt by simp
  from t2 saves d present
  have "rows_of_code (apply_writes ?dups sample_world) (Code sample_video)
          = rows_of_code sample_world (Code sample_video)"
    by blast
  then have r4: "rows_of_code (apply_writes ?dups sample_world) (Code sample_video) = [sample_video]"
    unfolding row0 .
  from t1 new
  have "rows_of_code (save_calls ((None, 40) # [(None, 41), (Some ''connection lost'', 42), (None, 43)])
          sample_world sample_new_video) (Code sample_new_video)
          = [sample_new_video\<lparr>Pushed := False, ID := next_id (map ID (videos sample_world)),
               CreatedAt := 40, UpdatedAt := 40\<rparr>]"
    and "SaveVideos None 40 sample_world (replicate (Suc 2) sample_new_video)
          = (fst (SaveVideo None 40 sample_world sample_new_video), 1, int 2, None)"
    by blast+
  then have r5: "rows_of_code
       (save_calls [(None, 40), (None, 41), (Some ''connection lost'', 42), (None, 43)]
          sample_world sample_new_video) (Code sample_new_video)
       = [sample_new_video\<lparr>Pushed := False, ID := 8, CreatedAt := 40, UpdatedAt := 40\<rparr>]"
    and r6: "SaveVideos None 40 sample_world (replicate 3 sample_new_video)
       = (fst (SaveVideo None 40 sample_world sample_new_video), 1, 2, None)"
    unfolding idn by (simp_all add: numeral_3_eq_3 numeral_2_eq_2)
  from t2 old have r7: "SaveVideos None 50 sample_world [sample_video, sample_video]
       = (sample_world, 0, 2, None)"
    by simp
  from t1 have r8: "flags_kept (videos sample_world) (videos (apply_writes sample_writes sample_world))"
    by blast
  from d s r1 new r2 r3 r4 r5 r6 r7 r8 show ?thesis by (simp only: simp_thms)
qed

section \<open>Properties of the crawler\<close>

lemma maxPages_of_1: "maxPages_of 1 = 1"
  by (simp add: maxPages_of_def wrap64_def go_quot_def)

lemma maxPages_of_20: "maxPages_of 20 = 2"
  by (simp add: maxPages_of_def wrap64_def go_quot_def)

lemma decimal_digit: "n < 10 \<Longrightarrow> decimal n = [48 + n]"
  by (simp add: decimal.simps)

lemma page_url_first: "page_url base 1 = base"
  by (simp add: page_url_def)

lemma browser_calls_append:
  "browser_calls (es @ fs) = browser_calls es @ browser_calls fs"
  by (induction es rule: browser_calls.induct) simp_all

lemma CrawlByKeyword_blocked_first_result:
  "CrawlByKeyword env_blocked_first (runes ''x'') 1
     = ([video_coded ''AB-1'', video_coded ''AB-2''], None,
        [Fetch (runes ''https://missav.ai/search/x''),
         Browser (runes ''https://missav.ai/search/x'')])"
  by (simp add: CrawlByKeyword_def maxPages_of_1 keyword_loop.simps env_blocked_first_def
      page_blocked_def page_with_def page_url_def BaseURL_def searchPath_def runes_def Let_def)

text \<open>
  Claim C3, at an input where the code leaves it. \<open>CrawlByKeyword\<close> is called with
  \<open>limit = 1\<close>; the plain fetch of the first page fails and the browser fallback yields
  two videos. The branch that takes the browser's videos after a failed fetch appends them
  and goes on to the next page without the comparison with \<open>limit\<close> that the other branch
  makes, the page count is exhausted, and both videos are returned.
\<close>

theorem CrawlByKeyword_exceeds_limit:
  "fetchErr (env_blocked_first 1) \<noteq> None
   \<and> browserVideos (env_blocked_first 1) = Inr [video_coded ''AB-1'', video_coded ''AB-2'']
   \<and> fst (CrawlByKeyword env_blocked_first (runes ''x'') 1)
       = [video_coded ''AB-1'', video_coded ''AB-2'']
   \<and> fst (snd (CrawlByKeyword env_blocked_first (runes ''x'') 1)) = None
   \<and> int (length (fst (CrawlByKeyword env_blocked_first (runes ''x'') 1))) > 1"
  by (simp add: CrawlByKeyword_blocked_first_result)
    (simp add: env_blocked_first_def page_blocked_def)

text \<open>
  The bound holds on the other paths: \<open>CrawlByActor\<close> keeps it for every limit that is
  not negative, and \<open>CrawlByKeyword\<close> keeps it whenever the plain fetch of the first page
  succeeds.
\<close>

lemma actor_loop_return:
  assumes "\<not> page \<le> maxPages \<or> ctxErr (env page) \<noteq> None \<or> fetchErr (env page) \<noteq> None
           \<or> (\<exists>e. parsed (env page) = Inl e)"
  shows "fst (actor_loop env base limit maxPages page acc tr) = acc"
  using assms
  by (subst actor_loop.simps) (auto simp: Let_def split: option.splits)

lemma actor_loop_step:
  assumes "page \<le> maxPages" "ctxErr (env page) = None" "fetchErr (env page) = None"
    and "parsed (env page) = Inr vids"
  shows "actor_loop env base limit maxPages page acc tr =
           (if vids = [] then (acc, None, tr @ [Fetch (page_url base page)])
            else if limit \<le> int (length (acc @ vids))
                 then (case slice_to (acc @ vids) limit of
                         (vs, err) \<Rightarrow> (vs, err, tr @ [Fetch (page_url base page)]))
                 else actor_loop env base limit maxPages (page + 1) (acc @ vids)
                        (tr @ [Fetch (page_url base page)]))"
  using assms
  by (subst actor_loop.simps) (simp add: Let_def)

lemma actor_loop_bound:
  assumes "0 \<le> limit" "int (length acc) \<le> limit"
  shows "int (length (fst (actor_loop env base limit maxPages page acc tr))) \<le> limit"
  using assms
proof (induction "nat (maxPages + 1 - page)" arbitrary: page acc tr)
  case 0
  then have "\<not> page \<le> maxPages" by simp
  with 0 show ?case by (simp add: actor_loop_return)
next
  case (Suc n)
  show ?case
  proof (cases "page \<le> maxPages \<and> ctxErr (env page) = None \<and> fetchErr (env page) = None
                \<and> (\<exists>vs. parsed (env page) = Inr vs)")
    case False
    then have "\<not> page \<le> maxPages \<or> ctxErr (env page) \<noteq> None \<or> fetchErr (env page) \<noteq> None
           \<or> (\<exists>e. parsed (env page) = Inl e)"
      by (cases "parsed (env page)") auto
    with Suc.prems show ?thesis by (simp add: actor_loop_return)
  next
    case True
    then obtain vids where h: "parsed (env page) = Inr vids" by blast
    note step = actor_loop_step [of page maxPages env vids base limit acc tr, OF _ _ _ h]
    show ?thesis
    proof (cases "vids = []")
      case True
      with step \<open>page \<le> maxPages \<and> _\<close> Suc.prems show ?thesis by simp
    next
      case nonempty: False
      show ?thesis
      proof (cases "limit \<le> int (length (acc @ vids))")
        case True
        with step nonempty \<open>page \<le> maxPages \<and> _\<close> Suc.prems show ?thesis
          by (simp add: slice_to_def)
      next
        case False
        from Suc.hyps(2) True have "n = nat (maxPages + 1 - (page + 1))" by simp
        moreover from False have "int (length (acc @ vids)) \<le> limit" by simp
        ultimately have "int (length (fst (actor_loop env base limit maxPages (page + 1)
            (acc @ vids) (tr @ [Fetch (page_url base page)])))) \<le> limit"
          using Suc.hyps(1) Suc.prems(1) by blast
        with step nonempty False True show ?thesis by simp
      qed
    qed
  qed
qed

lemma CrawlByActor_bound:
  "0 \<le> limit \<Longrightarrow> int (length (fst (CrawlByActor env name limit))) \<le> limit"
  by (simp add: CrawlByActor_def actor_loop_bound)

lemma keyword_loop_return:
  assumes "\<not> page \<le> maxPages \<or> ctxErr (env page) \<noteq> None
           \<or> (fetchErr (env page) \<noteq> None \<and> page \<noteq> 1)
           \<or> (fetchErr (env page) = None \<and> (\<exists>e. parsed (env page) = Inl e))"
  shows "fst (keyword_loop env base limit maxPages page acc tr) = acc"
  using assms
  by (subst keyword_loop.simps) (auto simp: Let_def split: option.splits)

lemma keyword_loop_step:
  assumes "page \<le> maxPages" "ctxErr (env page) = None" "fetchErr (env page) = None"
    and "parsed (env page) = Inr httpVideos"
    and "vids = (if page = 1 \<and> httpVideos = []
                 then (case browserVideos (env page) of Inr bv \<Rightarrow> bv | Inl e \<Rightarrow> [])
                 else httpVideos)"
    and "trace2 = tr @ [Fetch (page_url base page)]
                    @ (if page = 1 \<and> httpVideos = [] then [Browser (page_url base page)] else [])"
  shows "keyword_loop env base limit maxPages page acc tr =
           (if vids = [] then (acc, None, trace2)
            else if limit \<le> int (length (acc @ vids))
                 then (case slice_to (acc @ vids) limit of (vs, err) \<Rightarrow> (vs, err, trace2))
                 else keyword_loop env base limit maxPages (page + 1) (acc @ vids) trace2)"
proof (cases "page = 1 \<and> httpVideos = []")
  case False
  with assms show ?thesis
    by (subst keyword_loop.simps) (auto simp: Let_def)
next
  case True
  show ?thesis
  proof (cases "browserVideos (env page)")
    case (Inl e)
    with True assms show ?thesis
      by (subst keyword_loop.simps) (simp add: Let_def)
  next
    case (Inr bv)
    with True assms show ?thesis
      by (subst keyword_loop.simps) (simp add: Let_def)
  qed
qed

lemma keyword_loop_bound:
  assumes "0 \<le> limit" "int (length acc) \<le> limit" "2 \<le> page \<or> fetchErr (env 1) = None"
  shows "int (length (fst (keyword_loop env base limit maxPages page acc tr))) \<le> limit"
  using assms
proof (induction "nat (maxPages + 1 - page)" arbitrary: page acc tr)
  case 0
  then have "\<not> page \<le> maxPages" by simp
  with 0 show ?case by (simp add: keyword_loop_return)
next
  case (Suc n)
  show ?case
  proof (cases "page \<le> maxPages \<and> ctxErr (env page) = None \<and> fetchErr (env page) = None
                \<and> (\<exists>vs. parsed (env page) = Inr vs)")
    case False
    then have "\<not> page \<le> maxPages \<or> ctxErr (env page) \<noteq> None
           \<or> (fetchErr (env page) \<noteq> None \<and> page \<noteq> 1)
           \<or> (fetchErr (env page) = None \<and> (\<exists>e. parsed (env page) = Inl e))"
      using Suc.prems(3) by (cases "parsed (env page)") auto
    with Suc.prems show ?thesis by (simp add: keyword_loop_return)
  next
    case True
    then obtain httpVideos where h: "parsed (env page) = Inr httpVideos" by blast
    define vids where "vids = (if page = 1 \<and> httpVideos = []
                 then (case browserVideos (env page) of Inr bv \<Rightarrow> bv | Inl e \<Rightarrow> [])
                 else httpVideos)"
    define trace2 where "trace2 = tr @ [Fetch (page_url base page)]
                    @ (if page = 1 \<and> httpVideos = [] then [Browser (page_url base page)] else [])"
    note step = keyword_loop_step [of page maxPages env httpVideos vids trace2 tr base limit acc,
        OF _ _ _ h vids_def trace2_def]
    show ?thesis
    proof (cases "vids = []")
      case True
      with step \<open>page \<le> maxPages \<and> _\<close> Suc.prems show ?thesis by simp
    next
      case nonempty: False
      show ?thesis
      proof (cases "limit \<le> int (length (acc @ vids))")
        case True
        with step nonempty \<open>page \<le> maxPages \<and> _\<close> Suc.prems show ?thesis
          by (simp add: slice_to_def)
      next
        case False
        from Suc.hyps(2) True have "n = nat (maxPages + 1 - (page + 1))" by simp
        moreover from False have "int (length (acc @ vids)) \<le> limit" by simp
        moreover from True have "2 \<le> page + 1 \<or> fetchErr (env 1) = None"
          using Suc.prems(3) by auto
        ultimately have "int (length (fst (keyword_loop env base limit maxPages (page + 1)
            (acc @ vids) trace2))) \<le> limit"
          using Suc.hyps(1) Suc.prems(1) by blast
        with step nonempty False True show ?thesis by simp
      qed
    qed
  qed
qed

lemma CrawlByKeyword_bound_unless_blocked:
  "0 \<le> limit \<Longrightarrow> fetchErr (env 1) = None \<Longrightarrow>
   int (length (fst (CrawlByKeyword env kw limit))) \<le> limit"
  by (simp add: CrawlByKeyword_def keyword_loop_bound)

lemma new_loop_no_browser_later:
  "2 \<le> page \<Longrightarrow>
   browser_calls (snd (snd (new_loop env pages page acc tr))) = browser_calls tr"
proof (induction env pages page acc tr rule: new_loop.induct)
  case (1 env pages page allVideos trace)
  show ?case
    apply (subst new_loop.simps)
    using 1
    by (auto split: option.splits sum.splits simp: Let_def browser_calls_append)
qed

lemma keyword_loop_no_browser_later:
  "2 \<le> page \<Longrightarrow>
   browser_calls (snd (snd (keyword_loop env base limit maxPages page acc tr))) = browser_calls tr"
proof (induction env base limit maxPages page acc tr rule: keyword_loop.induct)
  case (1 env base limit maxPages page allVideos trace)
  show ?case
    apply (subst keyword_loop.simps)
    using 1
    by (auto split: option.splits sum.splits prod.splits
        simp: Let_def slice_to_def browser_calls_append)
qed

lemma new_loop_first_empty:
  assumes "1 \<le> pages" "ctxErr (env 1) = None" "fetchErr (env 1) = None" "parsed (env 1) = Inr []"
  shows "new_loop env pages 1 [] [] =
           new_loop env pages 2
             (case browserVideos (env 1) of Inr bv \<Rightarrow> bv | Inl e \<Rightarrow> [])
             [Fetch (BaseURL @ newVideosPath), Browser (BaseURL @ newVideosPath)]"
  using assms
  by (subst new_loop.simps) (simp add: Let_def page_url_first split: sum.splits)

lemma new_loop_later_empty:
  assumes "2 \<le> page" "page \<le> pages" "ctxErr (env page) = None" "fetchErr (env page) = None"
    "parsed (env page) = Inr []"
  shows "new_loop env pages page acc tr =
           new_loop env pages (page + 1) acc
             (tr @ [Fetch (page_url (BaseURL @ newVideosPath) page)])"
  using assms
  by (subst new_loop.simps) (simp add: Let_def)

lemma keyword_loop_later_empty:
  assumes "2 \<le> page" "page \<le> maxPages" "ctxErr (env page) = None" "fetchErr (env page) = None"
    "parsed (env page) = Inr []"
  shows "keyword_loop env base limit maxPages page acc tr =
           (acc, None, tr @ [Fetch (page_url base page)])"
  using assms
  by (subst keyword_loop.simps) (simp add: Let_def)

lemma keyword_loop_first_empty:
  assumes "1 \<le> maxPages" "ctxErr (env 1) = None" "fetchErr (env 1) = None"
    "parsed (env 1) = Inr []"
  shows "keyword_loop env base limit maxPages 1 [] [] =
           (case browserVideos (env 1) of
              Inl e \<Rightarrow> ([], None, [Fetch base, Browser base])
            | Inr bv \<Rightarrow>
                if bv = [] then ([], None, [Fetch base, Browser base])
                else if limit \<le> int (length bv)
                     then (case slice_to bv limit of
                             (vs, err) \<Rightarrow> (vs, err, [Fetch base, Browser base]))
                     else keyword_loop env base limit maxPages 2 bv [Fetch base, Browser base])"
  using assms
  by (subst keyword_loop.simps) (simp add: Let_def page_url_first split: sum.splits)

lemma CrawlNewVideos_gap_result:
  "CrawlNewVideos env_gap 3
     = ([video_coded ''AB-1'', video_coded ''AB-3''], None,
        [Fetch (runes ''https://missav.ai/new''),
         Fetch (runes ''https://missav.ai/new?page=2''),
         Fetch (runes ''https://missav.ai/new?page=3'')])"
  by (simp add: CrawlNewVideos_def new_loop.simps env_gap_def page_with_def page_url_def
      BaseURL_def newVideosPath_def runes_def decimal_digit Let_def)

text \<open>
  Claim C8 as stated fails for \<open>CrawlNewVideos\<close>: with three pages asked for, the second
  page is fetched and yields no video, and the third page is fetched all the same and its
  video is returned. A page that yields nothing does not end the pagination of this
  operation.
\<close>

theorem CrawlNewVideos_goes_on_after_empty_page:
  "ctxErr (env_gap 2) = None \<and> fetchErr (env_gap 2) = None \<and> parsed (env_gap 2) = Inr []
   \<and> CrawlNewVideos env_gap 3
       = ([video_coded ''AB-1'', video_coded ''AB-3''], None,
          [Fetch (runes ''https://missav.ai/new''),
           Fetch (runes ''https://missav.ai/new?page=2''),
           Fetch (runes ''https://missav.ai/new?page=3'')])"
  by (simp add: CrawlNewVideos_gap_result) (simp add: env_gap_def page_with_def)

text \<open>
  Claim C8, amended. In \<open>CrawlNewVideos\<close> and in \<open>CrawlByKeyword\<close>, when the plain
  fetch of page 1 succeeds and yields no video, the browser fallback is called exactly
  once in the whole operation, on the URL of page 1, and if it yields at least one video
  those are the videos of page 1: the operation goes on from page 2 with them (or, in
  \<open>CrawlByKeyword\<close>, returns them cut to \<open>limit\<close>). From page 2 on neither loop calls the
  browser. In \<open>CrawlByKeyword\<close> a page from 2 on that is fetched and yields no video
  ends the pagination: what was collected is returned. In \<open>CrawlNewVideos\<close> such a page
  adds nothing and the loop goes on with the next page, up to the page count.
\<close>

theorem fallback_first_page_only:
  "(1 \<le> pages \<and> ctxErr (env 1) = None \<and> fetchErr (env 1) = None \<and> parsed (env 1) = Inr []
      \<longrightarrow> browser_calls (snd (snd (CrawlNewVideos env pages))) = [BaseURL @ newVideosPath]
          \<and> (\<forall>bv. browserVideos (env 1) = Inr bv \<and> bv \<noteq> [] \<longrightarrow>
                CrawlNewVideos env pages =
                  new_loop env pages 2 bv
                    [Fetch (BaseURL @ newVideosPath), Browser (BaseURL @ newVideosPath)]))
   \<and> (1 \<le> maxPages_of limit \<and> ctxErr (env 1) = None \<and> fetchErr (env 1) = None
        \<and> parsed (env 1) = Inr []
      \<longrightarrow> browser_calls (snd (snd (CrawlByKeyword env kw limit))) = [BaseURL @ searchPath @ kw]
          \<and> (\<forall>bv. browserVideos (env 1) = Inr bv \<and> bv \<noteq> [] \<longrightarrow>
                CrawlByKeyword env kw limit =
                  (if limit \<le> int (length bv)
                   then (case slice_to bv limit of
                           (vs, err) \<Rightarrow> (vs, err, [Fetch (BaseURL @ searchPath @ kw),
                                                    Browser (BaseURL @ searchPath @ kw)]))
                   else keyword_loop env (BaseURL @ searchPath @ kw) limit (maxPages_of limit) 2 bv
                          [Fetch (BaseURL @ searchPath @ kw),
                           Browser (BaseURL @ searchPath @ kw)])))
   \<and> (2 \<le> page \<longrightarrow>
        browser_calls (snd (snd (new_loop env pages page acc tr))) = browser_calls tr
        \<and> browser_calls (snd (snd (keyword_loop env base limit maxPages page acc tr)))
            = browser_calls tr)
   \<and> (2 \<le> page \<and> page \<le> maxPages \<and> ctxErr (env page) = None \<and> fetchErr (env page) = None
        \<and> parsed (env page) = Inr []
      \<longrightarrow> keyword_loop env base limit maxPages page acc tr
            = (acc, None, tr @ [Fetch (page_url base page)]))
   \<and> (2 \<le> page \<and> page \<le> pages \<and> ctxErr (env page) = None \<and> fetchErr (env page) = None
        \<and> parsed (env page) = Inr []
      \<longrightarrow> new_loop env pages page acc tr
            = new_loop env pages (page + 1) acc
                (tr @ [Fetch (page_url (BaseURL @ newVideosPath) page)]))"
proof -
  have a: "browser_calls (snd (snd (CrawlNewVideos env pages))) = [BaseURL @ newVideosPath]
          \<and> (\<forall>bv. browserVideos (env 1) = Inr bv \<and> bv \<noteq> [] \<longrightarrow>
                CrawlNewVideos env pages =
                  new_loop env pages 2 bv
                    [Fetch (BaseURL @ newVideosPath), Browser (BaseURL @ newVideosPath)])"
    if "1 \<le> pages" "ctxErr (env 1) = None" "fetchErr (env 1) = None" "parsed (env 1) = Inr []"
    using new_loop_first_empty [of pages env] that
    by (auto simp: CrawlNewVideos_def new_loop_no_browser_later)
  have b: "browser_calls (snd (snd (CrawlByKeyword env kw limit))) = [BaseURL @ searchPath @ kw]
          \<and> (\<forall>bv. browserVideos (env 1) = Inr bv \<and> bv \<noteq> [] \<longrightarrow>
                CrawlByKeyword env kw limit =
                  (if limit \<le> int (length bv)
                   then (case slice_to bv limit of
                           (vs, err) \<Rightarrow> (vs, err, [Fetch (BaseURL @ searchPath @ kw),
                                                    Browser (BaseURL @ searchPath @ kw)]))
                   else keyword_loop env (BaseURL @ searchPath @ kw) limit (maxPages_of limit) 2 bv
                          [Fetch (BaseURL @ searchPath @ kw),
                           Browser (BaseURL @ searchPath @ kw)]))"
    if "1 \<le> maxPages_of limit" "ctxErr (env 1) = None" "fetchErr (env 1) = None"
      "parsed (env 1) = Inr []"
    using keyword_loop_first_empty
            [of "maxPages_of limit" env "BaseURL @ searchPath @ kw" limit] that
    by (auto simp: CrawlByKeyword_def keyword_loop_no_browser_later slice_to_def
        split: sum.splits)
  from a b show ?thesis
    using new_loop_no_browser_later [of page env pages acc tr]
      keyword_loop_no_browser_later [of page env base limit maxPages acc tr]
      keyword_loop_later_empty [of page maxPages env base limit acc tr]
      new_loop_later_empty [of page pages env acc tr]
    by blast
qed

theorem fallback_first_page_only_witness:
  "ctxErr (env_first_empty 1) = None \<and> fetchErr (env_first_empty 1) = None
   \<and> parsed (env_first_empty 1) = Inr []
   \<and> browserVideos (env_first_empty 1) = Inr [video_coded ''AB-1'', video_coded ''AB-2'']
   \<and> ctxErr (env_first_empty 2) = None \<and> fetchErr (env_first_empty 2) = None
   \<and> parsed (env_first_empty 2) = Inr []
   \<and> browser_calls (snd (snd (CrawlNewVideos env_first_empty 3))) = [BaseURL @ newVideosPath]
   \<and> browser_calls (snd (snd (CrawlByKeyword env_first_empty (runes ''x'') 20)))
       = [BaseURL @ searchPath @ runes ''x'']
   \<and> CrawlByKeyword env_first_empty (runes ''x'') 20
       = ([video_coded ''AB-1'', video_coded ''AB-2''], None,
          [Fetch (BaseURL @ searchPath @ runes ''x''),
           Browser (BaseURL @ searchPath @ runes ''x''),
           Fetch (page_url (BaseURL @ searchPath @ runes ''x'') 2)])
   \<and> fst (CrawlNewVideos env_first_empty 3)
       = [video_coded ''AB-1'', video_coded ''AB-2'', video_coded ''AB-3'']"
proof -
  let ?bv = "[video_coded ''AB-1'', video_coded ''AB-2'']"
  let ?b = "BaseURL @ searchPath @ runes ''x''"
  have h1: "ctxErr (env_first_empty 1) = None" "fetchErr (env_first_empty 1) = None"
    "parsed (env_first_empty 1) = Inr []" "browserVideos (env_first_empty 1) = Inr ?bv"
    by (simp_all add: env_first_empty_def)
  have h2: "ctxErr (env_first_empty 2) = None" "fetchErr (env_first_empty 2) = None"
    "parsed (env_first_empty 2) = Inr []"
    by (simp_all add: env_first_empty_def page_with_def)
  note t = fallback_first_page_only
    [where pages = 3 and env = env_first_empty and limit = 20 and kw = "runes ''x''"
       and page = 2 and acc = ?bv and tr = "[Fetch ?b, Browser ?b]" and base = ?b
       and maxPages = 2]
  have ar: "(1::int) \<le> 3" "1 \<le> maxPages_of 20" "(2::int) \<le> 2" "?bv \<noteq> []"
    by (simp_all add: maxPages_of_20)
  from t h1 ar have n1: "browser_calls (snd (snd (CrawlNewVideos env_first_empty 3)))
      = [BaseURL @ newVideosPath]"
    by blast
  from t h1 ar have k1: "browser_calls (snd (snd (CrawlByKeyword env_first_empty (runes ''x'') 20)))
      = [?b]"
    by blast
  have big: "\<not> (20::int) \<le> int (length ?bv)"
    by simp
  from t h1 ar
  have "\<forall>bv. browserVideos (env_first_empty 1) = Inr bv \<and> bv \<noteq> [] \<longrightarrow>
          CrawlByKeyword env_first_empty (runes ''x'') 20 =
            (if 20 \<le> int (length bv)
             then (case slice_to bv 20 of (vs, err) \<Rightarrow> (vs, err, [Fetch ?b, Browser ?b]))
             else keyword_loop env_first_empty ?b 20 (maxPages_of 20) 2 bv
                    [Fetch ?b, Browser ?b])"
    by blast
  with h1 ar big have "CrawlByKeyword env_first_empty (runes ''x'') 20
      = keyword_loop env_first_empty ?b 20 (maxPages_of 20) 2 ?bv [Fetch ?b, Browser ?b]"
    by simp
  also from t h2 ar have "\<dots> = (?bv, None, [Fetch ?b, Browser ?b] @ [Fetch (page_url ?b 2)])"
    unfolding maxPages_of_20 by blast
  finally have k2: "CrawlByKeyword env_first_empty (runes ''x'') 20
      = (?bv, None, [Fetch ?b, Browser ?b, Fetch (page_url ?b 2)])"
    by simp
  have n2: "fst (CrawlNewVideos env_first_empty 3)
      = [video_coded ''AB-1'', video_coded ''AB-2'', video_coded ''AB-3'']"
    by (simp add: CrawlNewVideos_def new_loop.simps env_first_empty_def page_with_def Let_def)
  from h1 h2 n1 k1 k2 n2 show ?thesis by simp
qed

section \<open>Properties of the scheduler's try-lock\<close>

lemma filter_update_count:
  "i < length xs \<Longrightarrow>
   length (filter P (xs[i := y])) + (if P (xs ! i) then 1 else 0)
     = length (filter P xs) + (if P y then 1 else 0)"
proof (induction xs arbitrary: i)
  case Nil
  then show ?case by simp
next
  case (Cons x xs)
  show ?case
  proof (cases i)
    case 0
    then show ?thesis by simp
  next
    case (Suc j)
    with Cons.prems have "j < length xs" by simp
    from Cons.IH [OF this] Suc show ?thesis by simp
  qed
qed

lemma count_pc_update:
  assumes "i < length (pcs s)" "pcs s' = (pcs s)[i := q]"
  shows "count_pc P s' + (if P (pcs s ! i) then 1 else 0) = count_pc P s + (if P q then 1 else 0)"
  using filter_update_count [OF assms(1), of P q] assms(2)
  by (simp add: count_pc_def)

lemma count_pc_mono:
  assumes "\<And>p. P p \<Longrightarrow> Q p"
  shows "count_pc P s \<le> count_pc Q s"
proof -
  have "length (filter P xs) \<le> length (filter Q xs)" for xs
    using assms by (induction xs) auto
  then show ?thesis by (simp add: count_pc_def)
qed

lemma count_pc_cong:
  assumes "\<And>p. p \<in> set (pcs s) \<Longrightarrow> P p = Q p"
  shows "count_pc P s = count_pc Q s"
proof -
  from assms have "filter P (pcs s) = filter Q (pcs s)"
    by (intro filter_cong) auto
  then show ?thesis by (simp add: count_pc_def)
qed

lemma sched_inv_init: "sched_inv (init_scheduler n)"
  by (simp add: sched_inv_def init_scheduler_def count_pc_def holds_lock_def)

lemma sched_inv_update:
  assumes inv: "sched_inv s" and i: "i < length (pcs s)"
    and p: "pcs s' = (pcs s)[i := q]"
    and ok: "(pcs s ! i, q, mu s, mu s') \<in>
               {(Start, Returned False, True, True), (Start, Locked, False, True),
                (Locked, InCycle, True, True), (InCycle, CycleDone, True, True),
                (CycleDone, Cleared, True, True), (Cleared, Returned True, True, False)}"
    and cs: "cycles_started s' = (if q = InCycle then Suc (cycles_started s) else cycles_started s)"
    and cd: "cycles_done s' = (if q = CycleDone then Suc (cycles_done s) else cycles_done s)"
    and ru: "running s' = (if q = InCycle then True else if q = Cleared then False else running s)"
  shows "sched_inv s'"
proof -
  note cu = count_pc_update [OF i p]
  have len: "length (pcs s') = length (pcs s)" using p by simp
  have le: "count_pc (\<lambda>p. p = InCycle \<or> p = CycleDone) s \<le> count_pc holds_lock s"
    by (rule count_pc_mono) (auto simp: holds_lock_def)
  show ?thesis
    unfolding sched_inv_def len
    using inv [unfolded sched_inv_def] ok cs cd ru le
      cu [of holds_lock]
      cu [of "\<lambda>p. p = InCycle \<or> p = CycleDone \<or> p = Cleared \<or> p = Returned True"]
      cu [of "\<lambda>p. p = CycleDone \<or> p = Cleared \<or> p = Returned True"]
      cu [of "\<lambda>p. p = InCycle \<or> p = CycleDone"]
      cu [of "\<lambda>p. p = Start"]
      cu [of "\<lambda>p. p = Returned True"]
    by (auto simp: holds_lock_def split: if_splits)
qed

lemma mu_of_holder:
  assumes "sched_inv s" "i < length (pcs s)" "holds_lock (pcs s ! i)"
  shows "mu s"
proof (rule ccontr)
  assume "\<not> mu s"
  with assms(1) have "filter holds_lock (pcs s) = []"
    by (simp add: sched_inv_def count_pc_def)
  with assms(2,3) show False
    by (auto simp: filter_empty_conv)
qed

lemma sched_inv_step:
  assumes "sched_inv s"
  shows "sched_inv (step s i)"
proof (cases "i < length (pcs s)")
  case False
  with assms show ?thesis by (simp add: step_def)
next
  case True
  show ?thesis
  proof (cases "holds_lock (pcs s ! i)")
    case False
    then consider "pcs s ! i = Start" | b where "pcs s ! i = Returned b"
      by (cases "pcs s ! i") (auto simp: holds_lock_def)
    then show ?thesis
    proof cases
      case 1
      show ?thesis
        by (rule sched_inv_update [OF assms True, of _ "if mu s then Returned False else Locked"])
          (use True 1 in \<open>auto simp: step_def\<close>)
    next
      case 2
      with assms True show ?thesis by (simp add: step_def)
    qed
  next
    case holder: True
    with assms True have m: "mu s" by (rule mu_of_holder)
    from holder consider "pcs s ! i = Locked" | "pcs s ! i = InCycle"
      | "pcs s ! i = CycleDone" | "pcs s ! i = Cleared"
      by (auto simp: holds_lock_def)
    then show ?thesis
    proof cases
      case 1
      show ?thesis
        by (rule sched_inv_update [OF assms True, of _ InCycle])
          (use True 1 m in \<open>auto simp: step_def\<close>)
    next
      case 2
      show ?thesis
        by (rule sched_inv_update [OF assms True, of _ CycleDone])
          (use True 2 m in \<open>auto simp: step_def\<close>)
    next
      case 3
      show ?thesis
        by (rule sched_inv_update [OF assms True, of _ Cleared])
          (use True 3 m in \<open>auto simp: step_def\<close>)
    next
      case 4
      show ?thesis
        by (rule sched_inv_update [OF assms True, of _ "Returned True"])
          (use True 4 m in \<open>auto simp: step_def\<close>)
    qed
  qed
qed

lemma length_pcs_step: "length (pcs (step s i)) = length (pcs s)"
  by (simp add: step_def split: pc.splits)

lemma run_schedule_inv:
  assumes "sched_inv s"
  shows "sched_inv (run_schedule schedule s)
         \<and> length (pcs (run_schedule schedule s)) = length (pcs s)"
  using assms
proof (induction schedule arbitrary: s)
  case Nil
  then show ?case by (simp add: run_schedule_def)
next
  case (Cons i schedule)
  from Cons.IH [OF sched_inv_step [OF Cons.prems, of i]]
  show ?case by (simp add: run_schedule_def length_pcs_step)
qed

lemma sched_inv_one_cycle:
  assumes "sched_inv s"
  shows "count_pc (\<lambda>p. p = InCycle) s \<le> 1" "count_pc holds_lock s \<le> 1"
proof -
  from assms show h: "count_pc holds_lock s \<le> 1"
    by (simp add: sched_inv_def)
  have "count_pc (\<lambda>p. p = InCycle) s \<le> count_pc holds_lock s"
    by (rule count_pc_mono) (simp add: holds_lock_def)
  with h show "count_pc (\<lambda>p. p = InCycle) s \<le> 1" by simp
qed

lemma sched_inv_all_returned:
  assumes "sched_inv s" "all_returned s"
  shows "cycles_done s = count_pc (\<lambda>p. p = Returned True) s"
    and "cycles_started s = cycles_done s"
    and "0 < length (pcs s) \<Longrightarrow> 0 < count_pc (\<lambda>p. p = Returned True) s"
proof -
  from assms(2) have r: "p = Returned True \<or> p = Returned False" if "p \<in> set (pcs s)" for p
    using that by (auto simp: all_returned_def list_all_iff)
  have a: "count_pc (\<lambda>p. p = CycleDone \<or> p = Cleared \<or> p = Returned True) s
           = count_pc (\<lambda>p. p = Returned True) s"
    by (rule count_pc_cong) (use r in auto)
  have b: "count_pc (\<lambda>p. p = InCycle \<or> p = CycleDone \<or> p = Cleared \<or> p = Returned True) s
           = count_pc (\<lambda>p. p = Returned True) s"
    by (rule count_pc_cong) (use r in auto)
  have c: "count_pc holds_lock s = count_pc (\<lambda>p. False) s"
    by (rule count_pc_cong) (use r in \<open>auto simp: holds_lock_def\<close>)
  have d: "count_pc (\<lambda>p. p = Start) s = count_pc (\<lambda>p. False) s"
    by (rule count_pc_cong) (use r in auto)
  have z: "count_pc (\<lambda>p. False) s = 0"
    by (simp add: count_pc_def)
  from assms(1) a show "cycles_done s = count_pc (\<lambda>p. p = Returned True) s"
    by (simp add: sched_inv_def)
  from assms(1) a b show "cycles_started s = cycles_done s"
    by (simp add: sched_inv_def)
  from assms(1) c d z show "0 < count_pc (\<lambda>p. p = Returned True) s" if "0 < length (pcs s)"
    using that by (simp add: sched_inv_def)
qed

text \<open>
  Claim C5 as stated fails. Two triggers are issued together against a fresh scheduler.
  The first takes its five steps before the second takes its first one, the
  \<^verbatim>\<open>TryLock\<close>, which then finds the lock free: both triggers acquire the lock, both run
  a cycle and both return true. The try-lock skips a trigger only while the lock is held.
\<close>

theorem both_triggers_run:
  "run_schedule [0, 0, 0, 0, 0, 1, 1, 1, 1, 1] (init_scheduler 2)
     = \<lparr>mu = False, running = False, cycles_started = 2, cycles_done = 2,
        pcs = [Returned True, Returned True]\<rparr>"
  by (simp add: run_schedule_def init_scheduler_def step_def numeral_2_eq_2)

text \<open>
  Claim C5, amended. For every number of triggers issued against a fresh scheduler and
  every interleaving of their steps: at every instant at most one trigger holds the lock
  and at most one cycle is running; a trigger that tries the lock while it is held returns
  false at once and changes nothing but its own state, and one that tries it while it is
  free acquires it; when all triggers have returned, the number of cycles run equals the
  number of triggers that returned true, and at least one trigger did.
\<close>

theorem single_flight:
  "count_pc holds_lock (run_schedule schedule (init_scheduler n)) \<le> 1
   \<and> count_pc (\<lambda>p. p = InCycle) (run_schedule schedule (init_scheduler n)) \<le> 1
   \<and> (i < length (pcs s) \<and> pcs s ! i = Start \<and> mu s
        \<longrightarrow> step s i = s\<lparr>pcs := (pcs s)[i := Returned False]\<rparr>)
   \<and> (i < length (pcs s) \<and> pcs s ! i = Start \<and> \<not> mu s
        \<longrightarrow> step s i = s\<lparr>mu := True, pcs := (pcs s)[i := Locked]\<rparr>)
   \<and> (all_returned (run_schedule schedule (init_scheduler n))
        \<longrightarrow> cycles_done (run_schedule schedule (init_scheduler n))
              = count_pc (\<lambda>p. p = Returned True) (run_schedule schedule (init_scheduler n))
            \<and> cycles_started (run_schedule schedule (init_scheduler n))
              = cycles_done (run_schedule schedule (init_scheduler n))
            \<and> (0 < n \<longrightarrow>
                 0 < count_pc (\<lambda>p. p = Returned True)
                       (run_schedule schedule (init_scheduler n))))"
proof -
  let ?s = "run_schedule schedule (init_scheduler n)"
  from run_schedule_inv [OF sched_inv_init, of schedule n]
  have inv: "sched_inv ?s" and len: "length (pcs ?s) = n"
    by (simp_all add: init_scheduler_def)
  note one = sched_inv_one_cycle [OF inv]
  have lose: "step s i = s\<lparr>pcs := (pcs s)[i := Returned False]\<rparr>"
    if "i < length (pcs s)" "pcs s ! i = Start" "mu s"
    using that by (simp add: step_def)
  have win: "step s i = s\<lparr>mu := True, pcs := (pcs s)[i := Locked]\<rparr>"
    if "i < length (pcs s)" "pcs s ! i = Start" "\<not> mu s"
    using that by (simp add: step_def)
  have fin: "cycles_done ?s = count_pc (\<lambda>p. p = Returned True) ?s
             \<and> cycles_started ?s = cycles_done ?s
             \<and> (0 < n \<longrightarrow> 0 < count_pc (\<lambda>p. p = Returned True) ?s)"
    if "all_returned ?s"
    using sched_inv_all_returned [OF inv that] len by simp
  from one lose win fin show ?thesis by blast
qed

theorem single_flight_witness:
  "run_schedule [0, 1, 2, 0, 0, 0, 0] (init_scheduler 3)
     = \<lparr>mu = False, running = False, cycles_started = 1, cycles_done = 1,
        pcs = [Returned True, Returned False, Returned False]\<rparr>
   \<and> all_returned (run_schedule [0, 1, 2, 0, 0, 0, 0] (init_scheduler 3))
   \<and> cycles_done (run_schedule [0, 1, 2, 0, 0, 0, 0] (init_scheduler 3)) = 1
   \<and> count_pc (\<lambda>p. p = Returned True) (run_schedule [0, 1, 2, 0, 0, 0, 0] (init_scheduler 3)) = 1
   \<and> mu (run_schedule [0] (init_scheduler 3))
   \<and> pcs (run_schedule [0] (init_scheduler 3)) ! 1 = Start
   \<and> pcs (step (run_schedule [0] (init_scheduler 3)) 1) = [Locked, Returned False, Start]"
proof -
  let ?s = "run_schedule [0, 1, 2, 0, 0, 0, 0] (init_scheduler 3)"
  let ?s1 = "run_schedule [0] (init_scheduler 3)"
  have r: "?s = \<lparr>mu = False, running = False, cycles_started = 1, cycles_done = 1,
        pcs = [Returned True, Returned False, Returned False]\<rparr>"
    by (simp add: run_schedule_def init_scheduler_def step_def numeral_3_eq_3)
  have a: "all_returned ?s"
    unfolding r by (simp add: all_returned_def)
  have s1: "?s1 = \<lparr>mu = True, running = False, cycles_started = 0, cycles_done = 0,
        pcs = [Locked, Start, Start]\<rparr>"
    by (simp add: run_schedule_def init_scheduler_def step_def numeral_3_eq_3)
  have h: "1 < length (pcs ?s1) \<and> pcs ?s1 ! 1 = Start \<and> mu ?s1"
    unfolding s1 by simp
  note t = single_flight [where schedule = "[0, 1, 2, 0, 0, 0, 0]" and n = 3 and i = 1
      and s = ?s1]
  from t a have c: "cycles_done ?s = count_pc (\<lambda>p. p = Returned True) ?s"
    by blast
  from t h have l: "step ?s1 1 = ?s1\<lparr>pcs := (pcs ?s1)[1 := Returned False]\<rparr>"
    by blast
  have d: "cycles_done ?s = 1"
    unfolding r by simp
  have p: "pcs (step ?s1 1) = [Locked, Returned False, Start]"
    unfolding l unfolding s1 by simp
  from r a c d h p show ?thesis
    by (simp only: simp_thms)
qed

end
